theory Spec2Isabelle
  imports Complex_Main "HOL-Library.AList" "HOL-Library.Multiset"
begin

section \<open>Personal-record detection of the workout service (workoutApi)\<close>

text \<open>
  The PR functions of the workout service are embedded here: \<open>getPRKey\<close>, \<open>dateHasPR\<close>,
  \<open>dateHasCurrentPR\<close>, \<open>calculatePRs\<close> and \<open>getPRSummaryForRecord\<close>.

  Conventions of the embedding.
  \<^item> A JavaScript \<open>number\<close> is a \<open>real\<close>. The functions only compare numbers
    (\<open>>\<close>, \<open>===\<close>) and never compute with them, so no rounding occurs; \<open>NaN\<close> is not
    represented.
  \<^item> An optional property (\<open>maxWeightPR?: boolean\<close>) is an \<open>option\<close>: \<open>None\<close> is
    \<open>undefined\<close>. The arrays \<open>exercises\<close> and \<open>sets\<close> are read through \<open>?.\<close> in the
    source, so they are options too.
  \<^item> A plain object used as a dictionary is an association list in insertion order;
    \<open>obj[k] = v\<close> is \<open>AList.update\<close> (overwrite in place, or append), \<open>obj[k]\<close> is
    \<open>map_of\<close>, \<open>Object.keys\<close> is \<open>map fst\<close>. The two objects of maxima are read
    under exercise names, which a user chooses, so a read of them goes through
    \<open>getProperty\<close>, which also sees the properties inherited from \<open>Object.prototype\<close>
    (an exercise called \<open>constructor\<close>). The PR map is read under keys that end in a
    decimal digit, or under its own keys; no inherited name ends in a digit
    (\<open>getPRKey_not_inherited\<close>), so \<open>map_of\<close> is the read there.
  \<^item> Only the properties the PR functions read are fields of the records below
    (\<open>id\<close>, \<open>memo\<close>, \<open>muscle\<close>, \<open>custom\<close>, \<open>setNumber\<close>, \<open>tags\<close> are never read).
\<close>

subsection \<open>Data model\<close>

type_synonym number = real

record TrainingSet =
  weight :: number
  reps :: number

record TrainingRecordExercise =
  name :: string
  sets :: "TrainingSet list option"

record TrainingRecord =
  date :: string
  exercises :: "TrainingRecordExercise list option"

text \<open>The fields of \<open>PRInfo\<close> carry the prefix \<open>pr_\<close> where the name is a field of
  another record already.\<close>

record PRInfo =
  maxWeightPR :: "bool option"
  repPR :: "bool option"
  isCurrentMaxPR :: "bool option"
  isCurrentRepPR :: "bool option"
  pr_date :: string
  pr_exercise :: string
  pr_weight :: number
  pr_reps :: number
  setIndex :: nat

type_synonym PRData = "(string \<times> PRInfo) list"

record PRCalculationResult =
  prData :: PRData
  maxWeightByExercise :: "(string \<times> number) list"
  maxRepsAtMaxWeight :: "(string \<times> number) list"

record PRSummaryItem =
  ps_exercise :: string
  ps_weight :: number
  ps_reps :: number
  isMaxWeightPR :: bool
  isRepPR :: bool
  ps_isCurrentMaxPR :: bool
  ps_isCurrentRepPR :: bool

record PRSummaryResult =
  hasPR :: bool
  hasNowPR :: bool
  prSummary :: "PRSummaryItem list"

subsection \<open>JavaScript primitives used by the functions\<close>

text \<open>Truthiness of an optional boolean.\<close>

definition truthy :: "bool option \<Rightarrow> bool" where
  "truthy b = (b = Some True)"

text \<open>
  \<open>obj[k]\<close> on an object literal \<open>{}\<close> that is only ever assigned numbers: the own
  property when there is one, else the property of \<open>Object.prototype\<close> of that name
  (a function, or the prototype object itself for \<open>__proto__\<close>), else \<open>undefined\<close>.
\<close>

definition objectPrototypeNames :: "string list" where
  "objectPrototypeNames =
     [''constructor'', ''__defineGetter__'', ''__defineSetter__'', ''hasOwnProperty'',
      ''__lookupGetter__'', ''__lookupSetter__'', ''isPrototypeOf'',
      ''propertyIsEnumerable'', ''toString'', ''valueOf'', ''__proto__'',
      ''toLocaleString'']"

datatype propertyValue = Undefined | Num number | Inherited

definition getProperty :: "(string \<times> number) list \<Rightarrow> string \<Rightarrow> propertyValue" where
  "getProperty obj k =
     (case map_of obj k of
        Some v \<Rightarrow> Num v
      | None \<Rightarrow> if k \<in> set objectPrototypeNames then Inherited else Undefined)"

text \<open>\<open>!v\<close> is true for \<open>undefined\<close> and for \<open>0\<close>, false for a function or an object.\<close>

definition falsyNumber :: "propertyValue \<Rightarrow> bool" where
  "falsyNumber v = (case v of Undefined \<Rightarrow> True | Num x \<Rightarrow> x = 0 | Inherited \<Rightarrow> False)"

text \<open>\<open>x > v\<close> and \<open>x === v\<close> for a number \<open>x\<close>: both are false when \<open>v\<close> is
  \<open>undefined\<close>, and when it is a function or an object (which \<open>>\<close> converts to
  \<open>NaN\<close>).\<close>

definition greaterThan :: "number \<Rightarrow> propertyValue \<Rightarrow> bool" where
  "greaterThan x v = (case v of Num y \<Rightarrow> x > y | _ \<Rightarrow> False)"

definition strictEquals :: "number \<Rightarrow> propertyValue \<Rightarrow> bool" where
  "strictEquals x v = (case v of Num y \<Rightarrow> x = y | _ \<Rightarrow> False)"

text \<open>Decimal rendering of an array index inside a template literal.\<close>

definition digitChar :: "nat \<Rightarrow> char" where
  "digitChar n = ''0123456789'' ! n"

fun natToString :: "nat \<Rightarrow> string" where
  "natToString n =
     (if n < 10 then [digitChar n]
      else natToString (n div 10) @ [digitChar (n mod 10)])"

declare natToString.simps [simp del]

text \<open>\<open>String.prototype.startsWith\<close>, character by character.\<close>

fun startsWith :: "string \<Rightarrow> string \<Rightarrow> bool" where
  "startsWith s [] = True"
| "startsWith [] (p # ps) = False"
| "startsWith (c # cs) (p # ps) = (c = p \<and> startsWith cs ps)"

subsection \<open>Dates: \<open>new Date(s).getTime()\<close> for the date-only form \<open>YYYY-MM-DD\<close>\<close>

text \<open>
  The records carry ISO calendar dates. ECMAScript reads the date-only form as UTC
  midnight: the time value is \<open>MakeDay(y, m, d) * msPerDay\<close>. A string that is not a
  calendar date of this form yields \<open>None\<close>, the model of \<open>NaN\<close> (Invalid Date); the
  other forms of the date-time format are not represented.
\<close>

definition digitVal :: "char \<Rightarrow> nat option" where
  "digitVal c = (let n = (of_char c :: nat) in if 48 \<le> n \<and> n \<le> 57 then Some (n - 48) else None)"

definition isLeapYear :: "nat \<Rightarrow> bool" where
  "isLeapYear y = ((y mod 4 = 0 \<and> y mod 100 \<noteq> 0) \<or> y mod 400 = 0)"

definition daysInMonth :: "bool \<Rightarrow> nat \<Rightarrow> nat" where
  "daysInMonth leap m =
     (if m = 2 then (if leap then 29 else 28)
      else if m = 4 \<or> m = 6 \<or> m = 9 \<or> m = 11 then 30 else 31)"

definition daysBeforeMonth :: "bool \<Rightarrow> nat \<Rightarrow> nat" where
  "daysBeforeMonth leap m =
     (let l = (if leap then 1 else 0) in
      if m = 1 then 0 else if m = 2 then 31 else if m = 3 then 59 + l
      else if m = 4 then 90 + l else if m = 5 then 120 + l else if m = 6 then 151 + l
      else if m = 7 then 181 + l else if m = 8 then 212 + l else if m = 9 then 243 + l
      else if m = 10 then 273 + l else if m = 11 then 304 + l else 334 + l)"

definition dayFromYear :: "nat \<Rightarrow> int" where
  "dayFromYear y =
     365 * (int y - 1970) + (int y - 1969) div 4 - (int y - 1901) div 100
       + (int y - 1601) div 400"

definition makeDay :: "nat \<Rightarrow> nat \<Rightarrow> nat \<Rightarrow> int" where
  "makeDay y m d = dayFromYear y + int (daysBeforeMonth (isLeapYear y) m) + int d - 1"

definition msPerDay :: int where
  "msPerDay = 86400000"

definition dateFields :: "string \<Rightarrow> (nat \<times> nat \<times> nat) option" where
  "dateFields s =
     (case s of
        [y1, y2, y3, y4, h1, m1, m2, h2, d1, d2] \<Rightarrow>
          (if h1 = CHR ''-'' \<and> h2 = CHR ''-'' then
             (case those (map digitVal [y1, y2, y3, y4, m1, m2, d1, d2]) of
                Some [a, b, c, d, e, f, g, h] \<Rightarrow>
                  Some (1000 * a + 100 * b + 10 * c + d, 10 * e + f, 10 * g + h)
              | _ \<Rightarrow> None)
           else None)
      | _ \<Rightarrow> None)"

definition validDate :: "nat \<Rightarrow> nat \<Rightarrow> nat \<Rightarrow> bool" where
  "validDate y m d = (1 \<le> m \<and> m \<le> 12 \<and> 1 \<le> d \<and> d \<le> daysInMonth (isLeapYear y) m)"

definition getTime :: "string \<Rightarrow> int option" where
  "getTime s =
     (case dateFields s of
        None \<Rightarrow> None
      | Some (y, m, d) \<Rightarrow> if validDate y m d then Some (makeDay y m d * msPerDay) else None)"

subsection \<open>\<open>Array.prototype.sort\<close> with a comparison function\<close>

text \<open>
  The comparison function of \<open>calculatePRs\<close> is the difference of the two time values,
  \<open>NaN\<close> (\<open>None\<close>) when one of the dates is invalid. \<open>sort\<close> is stable and reads a
  \<open>NaN\<close> result as \<open>0\<close>: an element stays in front of a later one unless the comparison
  is positive. With an inconsistent comparison function (invalid dates) ECMAScript
  leaves the order to the implementation; the insertion sort below is one such order.
\<close>

definition compareByDate :: "TrainingRecord \<Rightarrow> TrainingRecord \<Rightarrow> int option" where
  "compareByDate a b =
     (case (getTime (date a), getTime (date b)) of
        (Some x, Some y) \<Rightarrow> Some (x - y)
      | _ \<Rightarrow> None)"

fun insertBy :: "('a \<Rightarrow> 'a \<Rightarrow> int option) \<Rightarrow> 'a \<Rightarrow> 'a list \<Rightarrow> 'a list" where
  "insertBy cmp x [] = [x]"
| "insertBy cmp x (y # ys) =
     (if (case cmp x y of None \<Rightarrow> True | Some v \<Rightarrow> v \<le> 0) then x # y # ys
      else y # insertBy cmp x ys)"

definition sortBy :: "('a \<Rightarrow> 'a \<Rightarrow> int option) \<Rightarrow> 'a list \<Rightarrow> 'a list" where
  "sortBy cmp xs = foldr (insertBy cmp) xs []"

subsection \<open>\<open>getPRKey\<close>, \<open>dateHasPR\<close>, \<open>dateHasCurrentPR\<close>\<close>

definition getPRKey :: "string \<Rightarrow> string \<Rightarrow> nat \<Rightarrow> string" where
  "getPRKey d exerciseName i = d @ ''_'' @ exerciseName @ ''_'' @ natToString i"

definition dateHasPR :: "PRData \<Rightarrow> string \<Rightarrow> bool" where
  "dateHasPR pd dateStr = list_ex (\<lambda>key. startsWith key (dateStr @ ''_'')) (map fst pd)"

definition dateHasCurrentPR :: "PRData \<Rightarrow> string \<Rightarrow> bool" where
  "dateHasCurrentPR pd dateStr =
     list_ex (\<lambda>key.
        if \<not> startsWith key (dateStr @ ''_'') then False
        else (case map_of pd key of
                None \<Rightarrow> False
              | Some pr \<Rightarrow> truthy (isCurrentMaxPR pr) \<or> truthy (isCurrentRepPR pr)))
       (map fst pd)"

subsection \<open>\<open>calculatePRs\<close>\<close>

text \<open>The body of the innermost \<open>forEach\<close>: one set at position \<open>i\<close> of an exercise.\<close>

definition processSet ::
  "string \<Rightarrow> string \<Rightarrow> nat \<times> TrainingSet \<Rightarrow> PRCalculationResult \<Rightarrow> PRCalculationResult" where
  "processSet d exerciseName p st =
     (let i = fst p; s = snd p; key = getPRKey d exerciseName i in
      if greaterThan (weight s) (getProperty (maxWeightByExercise st) exerciseName) then
        st\<lparr>maxWeightByExercise := AList.update exerciseName (weight s) (maxWeightByExercise st),
           maxRepsAtMaxWeight := AList.update exerciseName (reps s) (maxRepsAtMaxWeight st),
           prData := AList.update key
             \<lparr>maxWeightPR = Some True, repPR = Some True,
              isCurrentMaxPR = None, isCurrentRepPR = None,
              pr_date = d, pr_exercise = exerciseName,
              pr_weight = weight s, pr_reps = reps s, setIndex = i\<rparr> (prData st)\<rparr>
      else if strictEquals (weight s) (getProperty (maxWeightByExercise st) exerciseName)
              \<and> greaterThan (reps s) (getProperty (maxRepsAtMaxWeight st) exerciseName) then
        st\<lparr>maxRepsAtMaxWeight := AList.update exerciseName (reps s) (maxRepsAtMaxWeight st),
           prData := AList.update key
             \<lparr>maxWeightPR = None, repPR = Some True,
              isCurrentMaxPR = None, isCurrentRepPR = None,
              pr_date = d, pr_exercise = exerciseName,
              pr_weight = weight s, pr_reps = reps s, setIndex = i\<rparr> (prData st)\<rparr>
      else st)"

text \<open>The body of the middle \<open>forEach\<close>: the maxima of the name are set to 0 when
  \<open>!maxWeightByExercise[exerciseName]\<close>, then the sets are replayed with their index.\<close>

definition initExercise :: "string \<Rightarrow> PRCalculationResult \<Rightarrow> PRCalculationResult" where
  "initExercise exerciseName st =
     (if falsyNumber (getProperty (maxWeightByExercise st) exerciseName) then
        st\<lparr>maxWeightByExercise := AList.update exerciseName 0 (maxWeightByExercise st),
           maxRepsAtMaxWeight := AList.update exerciseName 0 (maxRepsAtMaxWeight st)\<rparr>
      else st)"

definition processExercise ::
  "string \<Rightarrow> TrainingRecordExercise \<Rightarrow> PRCalculationResult \<Rightarrow> PRCalculationResult" where
  "processExercise d ex st =
     (let st1 = initExercise (name ex) st in
      case sets ex of
        None \<Rightarrow> st1
      | Some ss \<Rightarrow> fold (processSet d (name ex)) (enumerate 0 ss) st1)"

definition processRecord :: "TrainingRecord \<Rightarrow> PRCalculationResult \<Rightarrow> PRCalculationResult" where
  "processRecord r st =
     (case exercises r of
        None \<Rightarrow> st
      | Some exs \<Rightarrow> fold (processExercise (date r)) exs st)"

definition emptyResult :: PRCalculationResult where
  "emptyResult = \<lparr>prData = [], maxWeightByExercise = [], maxRepsAtMaxWeight = []\<rparr>"

definition replay :: "TrainingRecord list \<Rightarrow> PRCalculationResult" where
  "replay rs = fold processRecord rs emptyResult"

text \<open>The second pass: the body of \<open>Object.keys(prData).forEach\<close>, which writes the two
  "current" flags into the entry object.\<close>

definition markCurrent ::
  "(string \<times> number) list \<Rightarrow> (string \<times> number) list \<Rightarrow> PRInfo \<Rightarrow> PRInfo" where
  "markCurrent mw mr pr =
     (if pr_exercise pr = [] then pr
      else
        (let pr1 = (if truthy (maxWeightPR pr)
                       \<and> strictEquals (pr_weight pr) (getProperty mw (pr_exercise pr))
                    then pr\<lparr>isCurrentMaxPR := Some True\<rparr> else pr)
         in if truthy (repPR pr1)
               \<and> strictEquals (pr_weight pr1) (getProperty mw (pr_exercise pr1))
               \<and> strictEquals (pr_reps pr1) (getProperty mr (pr_exercise pr1))
            then pr1\<lparr>isCurrentRepPR := Some True\<rparr> else pr1))"

definition markAll :: "PRCalculationResult \<Rightarrow> PRCalculationResult" where
  "markAll st =
     st\<lparr>prData :=
          map (\<lambda>entry. (fst entry,
                 markCurrent (maxWeightByExercise st) (maxRepsAtMaxWeight st) (snd entry)))
            (prData st)\<rparr>"

definition calculatePRs :: "TrainingRecord list \<Rightarrow> PRCalculationResult" where
  "calculatePRs records = markAll (replay (sortBy compareByDate records))"

subsection \<open>\<open>getPRSummaryForRecord\<close>\<close>

definition summaryItem :: "string \<Rightarrow> TrainingSet \<Rightarrow> PRInfo \<Rightarrow> PRSummaryItem" where
  "summaryItem exerciseName s pr =
     \<lparr>ps_exercise = exerciseName, ps_weight = weight s, ps_reps = reps s,
      isMaxWeightPR = truthy (maxWeightPR pr), isRepPR = truthy (repPR pr),
      ps_isCurrentMaxPR = truthy (isCurrentMaxPR pr),
      ps_isCurrentRepPR = truthy (isCurrentRepPR pr)\<rparr>"

definition summarizeSet ::
  "PRData \<Rightarrow> string \<Rightarrow> string \<Rightarrow> nat \<times> TrainingSet \<Rightarrow> PRSummaryResult \<Rightarrow> PRSummaryResult" where
  "summarizeSet pd d exerciseName p acc =
     (case map_of pd (getPRKey d exerciseName (fst p)) of
        None \<Rightarrow> acc
      | Some pr \<Rightarrow>
          (let acc1 = acc\<lparr>hasPR := True\<rparr>;
               acc2 = (if truthy (isCurrentMaxPR pr) \<or> truthy (isCurrentRepPR pr)
                       then acc1\<lparr>hasNowPR := True\<rparr> else acc1)
           in if truthy (maxWeightPR pr) \<or> truthy (repPR pr)
              then acc2\<lparr>prSummary := prSummary acc2 @ [summaryItem exerciseName (snd p) pr]\<rparr>
              else acc2))"

definition summarizeExercise ::
  "PRData \<Rightarrow> string \<Rightarrow> TrainingRecordExercise \<Rightarrow> PRSummaryResult \<Rightarrow> PRSummaryResult" where
  "summarizeExercise pd d ex acc =
     (case sets ex of
        None \<Rightarrow> acc
      | Some ss \<Rightarrow> fold (summarizeSet pd d (name ex)) (enumerate 0 ss) acc)"

definition getPRSummaryForRecord :: "TrainingRecord \<Rightarrow> PRData \<Rightarrow> PRSummaryResult" where
  "getPRSummaryForRecord record pd =
     (let start = \<lparr>hasPR = False, hasNowPR = False, prSummary = []\<rparr> in
      case exercises record of
        None \<Rightarrow> start
      | Some exs \<Rightarrow> fold (summarizeExercise pd (date record)) exs start)"

subsection \<open>\<open>calculatePRs\<close> on a store\<close>

text \<open>
  For the effect of \<open>calculatePRs\<close> on its argument the array and the record objects
  live in a store: an array object holds references to record objects, \<open>[...records]\<close>
  allocates a new array with the same references, and \<open>sort\<close> reorders the array it is
  called on. No statement of the function assigns to a property of a record, an
  exercise or a set, so a record object is a value of the store that is only read.
  A reference without an object makes the call undefined (\<open>None\<close>).
\<close>

record Store =
  arrayAt :: "nat \<Rightarrow> nat list option"
  recordAt :: "nat \<Rightarrow> TrainingRecord option"
  nextRef :: nat

definition spreadCopy :: "nat \<Rightarrow> Store \<Rightarrow> (nat \<times> Store) option" where
  "spreadCopy a h =
     (case arrayAt h a of
        None \<Rightarrow> None
      | Some refs \<Rightarrow>
          Some (nextRef h,
                h\<lparr>arrayAt := (arrayAt h)(nextRef h \<mapsto> refs), nextRef := Suc (nextRef h)\<rparr>))"

definition sortInPlace :: "nat \<Rightarrow> Store \<Rightarrow> Store option" where
  "sortInPlace c h =
     (case arrayAt h c of
        None \<Rightarrow> None
      | Some refs \<Rightarrow>
          (case those (map (recordAt h) refs) of
             None \<Rightarrow> None
           | Some recs \<Rightarrow>
               Some (h\<lparr>arrayAt := (arrayAt h)(c \<mapsto>
                       map fst (sortBy (\<lambda>p q. compareByDate (snd p) (snd q)) (zip refs recs)))\<rparr>)))"

definition readRecords :: "nat \<Rightarrow> Store \<Rightarrow> TrainingRecord list option" where
  "readRecords a h =
     (case arrayAt h a of None \<Rightarrow> None | Some refs \<Rightarrow> those (map (recordAt h) refs))"

definition calculatePRsOn :: "nat \<Rightarrow> Store \<Rightarrow> (PRCalculationResult \<times> Store) option" where
  "calculatePRsOn a h =
     (case spreadCopy a h of
        None \<Rightarrow> None
      | Some (c, h1) \<Rightarrow>
          (case sortInPlace c h1 of
             None \<Rightarrow> None
           | Some h2 \<Rightarrow>
               (case readRecords c h2 of
                  None \<Rightarrow> None
                | Some sortedRecords \<Rightarrow> Some (markAll (replay sortedRecords), h2))))"

subsection \<open>Vocabulary of the properties\<close>

text \<open>The sets of a record in iteration order, each with its exercise name and its
  index; a missing array counts as empty.\<close>

definition exerciseSets :: "TrainingRecordExercise \<Rightarrow> (string \<times> nat \<times> TrainingSet) list" where
  "exerciseSets ex =
     map (\<lambda>p. (name ex, p)) (enumerate 0 (case sets ex of None \<Rightarrow> [] | Some ss \<Rightarrow> ss))"

definition recordSets :: "TrainingRecord \<Rightarrow> (string \<times> nat \<times> TrainingSet) list" where
  "recordSets r = concat (map exerciseSets (case exercises r of None \<Rightarrow> [] | Some exs \<Rightarrow> exs))"

definition keyPresent :: "PRData \<Rightarrow> string \<Rightarrow> string \<times> nat \<times> TrainingSet \<Rightarrow> bool" where
  "keyPresent pd d t = (map_of pd (getPRKey d (fst t) (fst (snd t))) \<noteq> None)"

definition itemOf :: "PRData \<Rightarrow> string \<Rightarrow> string \<times> nat \<times> TrainingSet \<Rightarrow> PRSummaryItem" where
  "itemOf pd d t =
     summaryItem (fst t) (snd (snd t)) (the (map_of pd (getPRKey d (fst t) (fst (snd t)))))"

text \<open>A PR map is flagged when each of its entries carries \<open>maxWeightPR\<close> or
  \<open>repPR\<close>.\<close>

definition flagged :: "PRData \<Rightarrow> bool" where
  "flagged pd =
     list_all (\<lambda>key. case map_of pd key of
                        None \<Rightarrow> True
                      | Some pr \<Rightarrow> truthy (maxWeightPR pr) \<or> truthy (repPR pr))
       (map fst pd)"

text \<open>What the replay stores: \<open>repPR\<close> set, \<open>maxWeightPR\<close> set or absent, no
  "current" flag yet.\<close>

definition replayEntry :: "PRInfo \<Rightarrow> bool" where
  "replayEntry pr =
     (repPR pr = Some True \<and> (maxWeightPR pr = Some True \<or> maxWeightPR pr = None)
      \<and> isCurrentMaxPR pr = None \<and> isCurrentRepPR pr = None)"

text \<open>
  Positions in the three nested loops. For a replayed sequence \<open>pre @ r # post\<close>, the
  exercises \<open>exsPre @ ex # exsPost\<close> of \<open>r\<close> and the sets \<open>ssPre @ s # ssPost\<close> of
  \<open>ex\<close>: the state in which the loop body meets \<open>s\<close>, the state in which it leaves
  \<open>s\<close> (the index of \<open>s\<close> is the number of sets before it), and the rest of the
  replay from there.
\<close>

definition stateBeforeSet ::
  "TrainingRecord list \<Rightarrow> TrainingRecord \<Rightarrow> TrainingRecordExercise list
    \<Rightarrow> TrainingRecordExercise \<Rightarrow> TrainingSet list \<Rightarrow> PRCalculationResult" where
  "stateBeforeSet pre r exsPre ex ssPre =
     fold (processSet (date r) (name ex)) (enumerate 0 ssPre)
       (initExercise (name ex) (fold (processExercise (date r)) exsPre (replay pre)))"

definition stateAfterSet ::
  "TrainingRecord list \<Rightarrow> TrainingRecord \<Rightarrow> TrainingRecordExercise list
    \<Rightarrow> TrainingRecordExercise \<Rightarrow> TrainingSet list \<Rightarrow> TrainingSet \<Rightarrow> PRCalculationResult" where
  "stateAfterSet pre r exsPre ex ssPre s =
     processSet (date r) (name ex) (length ssPre, s) (stateBeforeSet pre r exsPre ex ssPre)"

definition resumeAfterSet ::
  "TrainingRecord \<Rightarrow> TrainingRecordExercise \<Rightarrow> nat \<Rightarrow> TrainingSet list
    \<Rightarrow> TrainingRecordExercise list \<Rightarrow> TrainingRecord list
    \<Rightarrow> PRCalculationResult \<Rightarrow> PRCalculationResult" where
  "resumeAfterSet r ex k ssPost exsPost post st =
     fold processRecord post
       (fold (processExercise (date r)) exsPost
          (fold (processSet (date r) (name ex)) (enumerate k ssPost) st))"


text \<open>The sort key of a record with a valid date.\<close>

definition timeKey :: "TrainingRecord \<Rightarrow> int" where
  "timeKey r = the (getTime (date r))"

text \<open>The sets logged under an exercise name, in replay order, and what the two
  maxima of the name should be for them: with a set of positive weight, the greatest
  weight and the greatest repetitions at that weight; without one, the weight 0.
  A state tracks a list of sets for a name when its two maxima are these.\<close>

definition setsNamed :: "string \<Rightarrow> TrainingRecordExercise \<Rightarrow> TrainingSet list" where
  "setsNamed n ex =
     (if name ex = n then (case sets ex of None \<Rightarrow> [] | Some ss \<Rightarrow> ss) else [])"

definition historyOf :: "string \<Rightarrow> TrainingRecord list \<Rightarrow> TrainingSet list" where
  "historyOf n rs =
     concat (map (\<lambda>r. concat (map (setsNamed n)
                    (case exercises r of None \<Rightarrow> [] | Some exs \<Rightarrow> exs))) rs)"

definition bestOf :: "TrainingSet list \<Rightarrow> number \<Rightarrow> number \<Rightarrow> bool" where
  "bestOf S mw mr =
     (if \<exists>s \<in> set S. 0 < weight s
      then mw = Max (weight ` set S) \<and> mr = Max (reps ` {s \<in> set S. weight s = mw})
      else mw = 0)"

definition tracks :: "PRCalculationResult \<Rightarrow> string \<Rightarrow> TrainingSet list \<Rightarrow> bool" where
  "tracks st n S =
     (case map_of (maxWeightByExercise st) n of
        None \<Rightarrow> S = [] \<and> map_of (maxRepsAtMaxWeight st) n = None
      | Some mw \<Rightarrow>
          (case map_of (maxRepsAtMaxWeight st) n of
             None \<Rightarrow> False
           | Some mr \<Rightarrow> bestOf S mw mr))"

text \<open>A state covers the pair \<open>(w, r)\<close> for a name when its running maxima are at
  least that pair: a heavier maximum, or the same weight with at least \<open>r\<close>
  repetitions.\<close>

definition covered :: "PRCalculationResult \<Rightarrow> string \<Rightarrow> number \<Rightarrow> number \<Rightarrow> bool" where
  "covered st n w r =
     (case (map_of (maxWeightByExercise st) n, map_of (maxRepsAtMaxWeight st) n) of
        (Some m, Some q) \<Rightarrow> w < m \<or> (w = m \<and> r \<le> q)
      | _ \<Rightarrow> False)"

subsection \<open>Example histories\<close>

definition singleSetRecord :: "string \<Rightarrow> string \<Rightarrow> number \<Rightarrow> number \<Rightarrow> TrainingRecord" where
  "singleSetRecord d n w r =
     \<lparr>date = d, exercises = Some [\<lparr>name = n, sets = Some [\<lparr>weight = w, reps = r\<rparr>]\<rparr>]\<rparr>"

definition squatRise :: "TrainingRecord list" where
  "squatRise = [singleSetRecord ''2024-01-08'' ''Squat'' 110 5,
                singleSetRecord ''2024-01-01'' ''Squat'' 100 5]"

definition benchTie :: "TrainingRecord list" where
  "benchTie = [singleSetRecord ''2024-01-08'' ''Bench'' 100 8,
               singleSetRecord ''2024-01-01'' ''Bench'' 100 5]"

definition plankRepeat :: "TrainingRecord list" where
  "plankRepeat = [singleSetRecord ''2024-01-01'' ''Plank'' 0 5,
                  singleSetRecord ''2024-01-08'' ''Plank'' 0 5]"

definition plankDrop :: "TrainingRecord list" where
  "plankDrop = [singleSetRecord ''2024-01-01'' ''Plank'' 0 8,
                singleSetRecord ''2024-01-08'' ''Plank'' 0 5]"

definition unflaggedMap :: PRData where
  "unflaggedMap =
     [(''2024-01-01_Bench_0'',
       \<lparr>maxWeightPR = None, repPR = None, isCurrentMaxPR = None, isCurrentRepPR = None,
        pr_date = ''2024-01-01'', pr_exercise = ''Bench'', pr_weight = 100, pr_reps = 5,
        setIndex = 0\<rparr>)]"


definition benchStore :: Store where
  "benchStore =
     \<lparr>arrayAt = (\<lambda>_. None)(0 \<mapsto> [1, 2]),
      recordAt = (\<lambda>_. None)(1 \<mapsto> singleSetRecord ''2024-01-08'' ''Bench'' 100 8,
                             2 \<mapsto> singleSetRecord ''2024-01-01'' ''Bench'' 100 5),
      nextRef = 3\<rparr>"

section \<open>Properties\<close>

subsection \<open>Reading the maxima\<close>

lemma greaterThan_get:
  "greaterThan x (getProperty obj k) \<longleftrightarrow> (\<exists>y. map_of obj k = Some y \<and> y < x)"
  by (auto simp: greaterThan_def getProperty_def split: option.splits)

lemma strictEquals_get: "strictEquals x (getProperty obj k) \<longleftrightarrow> map_of obj k = Some x"
  by (auto simp: strictEquals_def getProperty_def split: option.splits)

lemma falsyNumber_get:
  "falsyNumber (getProperty obj k) \<longleftrightarrow>
     map_of obj k = Some 0 \<or> (map_of obj k = None \<and> k \<notin> set objectPrototypeNames)"
  by (auto simp: falsyNumber_def getProperty_def split: option.splits)

subsection \<open>Keys and date lookups\<close>

lemma startsWith_iff: "startsWith s p \<longleftrightarrow> (\<exists>rest. s = p @ rest)"
  by (induction s p rule: startsWith.induct) auto

lemmas key_eval = getPRKey_def natToString.simps digitChar_def

lemmas date_eval = getTime_def dateFields_def validDate_def digitVal_def isLeapYear_def
  daysInMonth_def makeDay_def dayFromYear_def daysBeforeMonth_def msPerDay_def

lemmas calc_eval = calculatePRs_def sortBy_def compareByDate_def replay_def emptyResult_def
  processRecord_def processExercise_def initExercise_def processSet_def falsyNumber_def
  greaterThan_def strictEquals_def getProperty_def objectPrototypeNames_def markAll_def
  markCurrent_def truthy_def enumerate_eq_zip singleSetRecord_def

lemmas summary_eval = getPRSummaryForRecord_def summarizeExercise_def summarizeSet_def
  summaryItem_def recordSets_def exerciseSets_def keyPresent_def itemOf_def truthy_def
  enumerate_eq_zip singleSetRecord_def

text \<open>
  Claim C9. \<open>dateHasPR pd d\<close> is true exactly when some key of the map is \<open>d\<close>
  followed by \<open>_\<close> and any rest; \<open>dateHasCurrentPR pd d\<close> is true exactly when the
  entry of some such key has \<open>isCurrentMaxPR\<close> or \<open>isCurrentRepPR\<close> true.
\<close>

theorem dateHasPR_iff:
  "(dateHasPR pd d \<longleftrightarrow> (\<exists>key rest. key \<in> fst ` set pd \<and> key = d @ ''_'' @ rest))
 \<and> (dateHasCurrentPR pd d \<longleftrightarrow>
      (\<exists>key rest pr. map_of pd key = Some pr \<and> key = d @ ''_'' @ rest
         \<and> (isCurrentMaxPR pr = Some True \<or> isCurrentRepPR pr = Some True)))"
proof
  show "dateHasPR pd d \<longleftrightarrow> (\<exists>key rest. key \<in> fst ` set pd \<and> key = d @ ''_'' @ rest)"
    by (auto simp: dateHasPR_def list_ex_iff startsWith_iff)
next
  have "dateHasCurrentPR pd d \<longleftrightarrow>
     (\<exists>key \<in> fst ` set pd. startsWith key (d @ ''_'') \<and>
        (\<exists>pr. map_of pd key = Some pr \<and> (truthy (isCurrentMaxPR pr) \<or> truthy (isCurrentRepPR pr))))"
    by (auto simp: dateHasCurrentPR_def list_ex_iff split: option.splits)
  also have "\<dots> \<longleftrightarrow> (\<exists>key. startsWith key (d @ ''_'') \<and>
        (\<exists>pr. map_of pd key = Some pr \<and> (truthy (isCurrentMaxPR pr) \<or> truthy (isCurrentRepPR pr))))"
    by (metis domI dom_map_of_conv_image_fst)
  also have "\<dots> \<longleftrightarrow> (\<exists>key rest pr. map_of pd key = Some pr \<and> key = d @ ''_'' @ rest
         \<and> (isCurrentMaxPR pr = Some True \<or> isCurrentRepPR pr = Some True))"
    by (auto simp: startsWith_iff truthy_def)
  finally show "dateHasCurrentPR pd d \<longleftrightarrow>
      (\<exists>key rest pr. map_of pd key = Some pr \<and> key = d @ ''_'' @ rest
         \<and> (isCurrentMaxPR pr = Some True \<or> isCurrentRepPR pr = Some True))" .
qed

lemma natToString_last:
  "natToString i \<noteq> [] \<and> last (natToString i) = digitChar (i mod 10)"
  by (subst (1 2) natToString.simps) simp

lemma getPRKey_not_inherited: "getPRKey d n i \<notin> set objectPrototypeNames"
proof -
  have "i mod 10 < length ''0123456789''" by simp
  then have "digitChar (i mod 10) \<in> set ''0123456789''"
    unfolding digitChar_def by (rule nth_mem)
  then have "last (getPRKey d n i) \<in> set ''0123456789''"
    using natToString_last [of i] by (simp add: getPRKey_def)
  moreover have "\<forall>k \<in> set objectPrototypeNames. last k \<notin> set ''0123456789''"
    by (simp add: objectPrototypeNames_def)
  ultimately show ?thesis by blast
qed

text \<open>Under a name that \<open>Object.prototype\<close> provides nothing is initialised and
  nothing is stored: the read is never falsy and never compares as a number.\<close>

lemma calculatePRs_inherited_name:
  "calculatePRs [singleSetRecord ''2024-01-01'' ''constructor'' 100 5] =
     \<lparr>prData = [], maxWeightByExercise = [], maxRepsAtMaxWeight = []\<rparr>"
  by (simp add: calc_eval date_eval key_eval)

subsection \<open>One step of the replay\<close>

lemma processSet_new_max_weight_step:
  assumes "greaterThan (weight s) (getProperty (maxWeightByExercise st) n)"
  shows "map_of (maxWeightByExercise (processSet d n (i, s) st)) n = Some (weight s)"
    and "map_of (maxRepsAtMaxWeight (processSet d n (i, s) st)) n = Some (reps s)"
    and "map_of (prData (processSet d n (i, s) st)) (getPRKey d n i) =
           Some \<lparr>maxWeightPR = Some True, repPR = Some True,
                 isCurrentMaxPR = None, isCurrentRepPR = None,
                 pr_date = d, pr_exercise = n,
                 pr_weight = weight s, pr_reps = reps s, setIndex = i\<rparr>"
  using assms by (simp_all add: processSet_def update_conv')

lemma replay_decompose:
  assumes "exercises r = Some (exsPre @ ex # exsPost)"
    and "sets ex = Some (ssPre @ s # ssPost)"
  shows "replay (pre @ r # post) =
           resumeAfterSet r ex (Suc (length ssPre)) ssPost exsPost post
             (stateAfterSet pre r exsPre ex ssPre s)"
proof -
  have en: "enumerate 0 (ssPre @ s # ssPost) =
      enumerate 0 ssPre @ (length ssPre, s) # enumerate (Suc (length ssPre)) ssPost"
    by (simp add: enumerate_append_eq)
  have "processExercise (date r) ex st =
      fold (processSet (date r) (name ex)) (enumerate (Suc (length ssPre)) ssPost)
        (processSet (date r) (name ex) (length ssPre, s)
          (fold (processSet (date r) (name ex)) (enumerate 0 ssPre) (initExercise (name ex) st)))"
    for st
    using assms(2) by (simp add: processExercise_def Let_def en)
  then show ?thesis
    using assms(1)
    by (simp add: replay_def processRecord_def resumeAfterSet_def stateAfterSet_def
        stateBeforeSet_def)
qed

lemma prData_initExercise [simp]: "prData (initExercise n st) = prData st"
  by (simp add: initExercise_def)

lemma keys_processSet: "fst ` set (prData st) \<subseteq> fst ` set (prData (processSet d n p st))"
  by (simp add: processSet_def Let_def dom_update subset_insertI)

lemma keys_fold_processSet:
  "fst ` set (prData st) \<subseteq> fst ` set (prData (fold (processSet d n) ps st))"
proof (induction ps arbitrary: st)
  case Nil
  show ?case by simp
next
  case (Cons p ps)
  from keys_processSet [of st d n p] Cons [of "processSet d n p st"] show ?case by auto
qed

lemma keys_processExercise:
  "fst ` set (prData st) \<subseteq> fst ` set (prData (processExercise d ex st))"
  using keys_fold_processSet [of "initExercise (name ex) st" d "name ex"]
  by (auto simp: processExercise_def Let_def split: option.splits)

lemma keys_fold_processExercise:
  "fst ` set (prData st) \<subseteq> fst ` set (prData (fold (processExercise d) exs st))"
proof (induction exs arbitrary: st)
  case Nil
  show ?case by simp
next
  case (Cons ex exs)
  from keys_processExercise [of st d ex] Cons [of "processExercise d ex st"] show ?case by auto
qed

lemma keys_processRecord:
  "fst ` set (prData st) \<subseteq> fst ` set (prData (processRecord r st))"
  using keys_fold_processExercise [of st "date r"]
  by (auto simp: processRecord_def split: option.splits)

lemma keys_fold_processRecord:
  "fst ` set (prData st) \<subseteq> fst ` set (prData (fold processRecord rs st))"
proof (induction rs arbitrary: st)
  case Nil
  show ?case by simp
next
  case (Cons r rs)
  from keys_processRecord [of st r] Cons [of "processRecord r st"] show ?case by auto
qed

lemma keys_resumeAfterSet:
  "fst ` set (prData st) \<subseteq> fst ` set (prData (resumeAfterSet r ex k ssPost exsPost post st))"
  unfolding resumeAfterSet_def
  using keys_fold_processSet [of st "date r" "name ex" "enumerate k ssPost"]
    keys_fold_processExercise [of "fold (processSet (date r) (name ex)) (enumerate k ssPost) st"
      "date r" exsPost]
    keys_fold_processRecord [of "fold (processExercise (date r)) exsPost
      (fold (processSet (date r) (name ex)) (enumerate k ssPost) st)" post]
  by blast

lemma keys_markAll: "fst ` set (prData (markAll st)) = fst ` set (prData st)"
  by (force simp: markAll_def)

text \<open>
  Claim C4. When \<open>calculatePRs\<close> meets a set whose weight is strictly greater than the
  running maximum of its exercise name, it goes on from a state in which that weight is
  the maximum of the name, the running repetitions are those of the set, and the entry
  under the key of (date of the record, name, index of the set counted from 0) has
  \<open>maxWeightPR\<close> and \<open>repPR\<close> both true; the key is a key of the returned map.
\<close>

theorem calculatePRs_new_max_weight:
  assumes "sortBy compareByDate records = pre @ r # post"
    and "exercises r = Some (exsPre @ ex # exsPost)"
    and "sets ex = Some (ssPre @ s # ssPost)"
    and "greaterThan (weight s)
           (getProperty (maxWeightByExercise (stateBeforeSet pre r exsPre ex ssPre)) (name ex))"
  shows "calculatePRs records =
           markAll (resumeAfterSet r ex (Suc (length ssPre)) ssPost exsPost post
                      (stateAfterSet pre r exsPre ex ssPre s))
       \<and> map_of (maxWeightByExercise (stateAfterSet pre r exsPre ex ssPre s)) (name ex)
           = Some (weight s)
       \<and> map_of (maxRepsAtMaxWeight (stateAfterSet pre r exsPre ex ssPre s)) (name ex)
           = Some (reps s)
       \<and> map_of (prData (stateAfterSet pre r exsPre ex ssPre s))
             (getPRKey (date r) (name ex) (length ssPre)) =
           Some \<lparr>maxWeightPR = Some True, repPR = Some True,
                 isCurrentMaxPR = None, isCurrentRepPR = None,
                 pr_date = date r, pr_exercise = name ex,
                 pr_weight = weight s, pr_reps = reps s, setIndex = length ssPre\<rparr>
       \<and> getPRKey (date r) (name ex) (length ssPre) \<in> fst ` set (prData (calculatePRs records))"
proof -
  let ?after = "stateAfterSet pre r exsPre ex ssPre s"
  let ?key = "getPRKey (date r) (name ex) (length ssPre)"
  have c: "calculatePRs records =
           markAll (resumeAfterSet r ex (Suc (length ssPre)) ssPost exsPost post ?after)"
    by (simp add: calculatePRs_def assms(1) replay_decompose [OF assms(2,3)])
  note step = processSet_new_max_weight_step [OF assms(4), of "date r" "length ssPre"]
  have w: "map_of (maxWeightByExercise ?after) (name ex) = Some (weight s)"
    using step(1) by (simp add: stateAfterSet_def)
  have q: "map_of (maxRepsAtMaxWeight ?after) (name ex) = Some (reps s)"
    using step(2) by (simp add: stateAfterSet_def)
  have e: "map_of (prData ?after) ?key =
           Some \<lparr>maxWeightPR = Some True, repPR = Some True,
                 isCurrentMaxPR = None, isCurrentRepPR = None,
                 pr_date = date r, pr_exercise = name ex,
                 pr_weight = weight s, pr_reps = reps s, setIndex = length ssPre\<rparr>"
    using step(3) by (simp add: stateAfterSet_def)
  from e have "?key \<in> fst ` set (prData ?after)"
    by (metis domI dom_map_of_conv_image_fst)
  then have "?key \<in> fst ` set (prData (calculatePRs records))"
    unfolding c keys_markAll using keys_resumeAfterSet by blast
  with c w q e show ?thesis by blast
qed

theorem calculatePRs_new_max_weight_witness:
  "sortBy compareByDate squatRise =
     [singleSetRecord ''2024-01-01'' ''Squat'' 100 5]
       @ singleSetRecord ''2024-01-08'' ''Squat'' 110 5 # []
 \<and> getProperty (maxWeightByExercise
       (stateBeforeSet [singleSetRecord ''2024-01-01'' ''Squat'' 100 5]
          (singleSetRecord ''2024-01-08'' ''Squat'' 110 5) []
          \<lparr>name = ''Squat'', sets = Some [\<lparr>weight = 110, reps = 5\<rparr>]\<rparr> [])) ''Squat'' = Num 100
 \<and> map_of (maxWeightByExercise
       (stateAfterSet [singleSetRecord ''2024-01-01'' ''Squat'' 100 5]
          (singleSetRecord ''2024-01-08'' ''Squat'' 110 5) []
          \<lparr>name = ''Squat'', sets = Some [\<lparr>weight = 110, reps = 5\<rparr>]\<rparr> []
          \<lparr>weight = 110, reps = 5\<rparr>)) ''Squat'' = Some 110
 \<and> map_of (maxRepsAtMaxWeight
       (stateAfterSet [singleSetRecord ''2024-01-01'' ''Squat'' 100 5]
          (singleSetRecord ''2024-01-08'' ''Squat'' 110 5) []
          \<lparr>name = ''Squat'', sets = Some [\<lparr>weight = 110, reps = 5\<rparr>]\<rparr> []
          \<lparr>weight = 110, reps = 5\<rparr>)) ''Squat'' = Some 5
 \<and> ''2024-01-08_Squat_0'' \<in> fst ` set (prData (calculatePRs squatRise))"
proof -
  let ?r1 = "singleSetRecord ''2024-01-01'' ''Squat'' 100 5"
  let ?r8 = "singleSetRecord ''2024-01-08'' ''Squat'' 110 5"
  let ?ex = "\<lparr>name = ''Squat'', sets = Some [\<lparr>weight = 110, reps = 5\<rparr>]\<rparr>"
  let ?s = "\<lparr>weight = 110, reps = 5\<rparr>"
  have 1: "sortBy compareByDate squatRise = [?r1] @ ?r8 # []"
    by (simp add: squatRise_def sortBy_def compareByDate_def singleSetRecord_def date_eval)
  have 2: "exercises ?r8 = Some ([] @ ?ex # [])" by (simp add: singleSetRecord_def)
  have 3: "sets ?ex = Some ([] @ ?s # [])" by simp
  have b: "getProperty (maxWeightByExercise (stateBeforeSet [?r1] ?r8 [] ?ex [])) ''Squat''
             = Num 100"
    by (simp add: stateBeforeSet_def calc_eval key_eval)
  then have 4: "greaterThan (weight ?s)
      (getProperty (maxWeightByExercise (stateBeforeSet [?r1] ?r8 [] ?ex [])) (name ?ex))"
    by (simp add: greaterThan_def)
  note t = calculatePRs_new_max_weight [OF 1 2 3 4]
  from t have w: "map_of (maxWeightByExercise (stateAfterSet [?r1] ?r8 [] ?ex [] ?s)) ''Squat''
      = Some 110"
    by simp
  from t have q: "map_of (maxRepsAtMaxWeight (stateAfterSet [?r1] ?r8 [] ?ex [] ?s)) ''Squat''
      = Some 5"
    by simp
  have key: "getPRKey (date ?r8) (name ?ex) (length ([] :: TrainingSet list))
      = ''2024-01-08_Squat_0''"
    by (simp add: key_eval singleSetRecord_def)
  from t have "getPRKey (date ?r8) (name ?ex) (length ([] :: TrainingSet list))
      \<in> fst ` set (prData (calculatePRs squatRise))"
    by blast
  then have k: "''2024-01-08_Squat_0'' \<in> fst ` set (prData (calculatePRs squatRise))"
    unfolding key .
  from 1 b w q k show ?thesis by (intro conjI)
qed

subsection \<open>The per-record summary\<close>

lemma flaggedD:
  assumes "flagged pd" and "map_of pd key = Some pr"
  shows "truthy (maxWeightPR pr) \<or> truthy (repPR pr)"
proof -
  from assms(2) have "key \<in> set (map fst pd)" by (metis domI dom_map_of_conv_image_fst set_map)
  with assms show ?thesis by (auto simp: flagged_def list_all_iff)
qed

lemma flaggedI:
  assumes "\<And>key pr. map_of pd key = Some pr \<Longrightarrow> truthy (maxWeightPR pr) \<or> truthy (repPR pr)"
  shows "flagged pd"
  using assms by (auto simp: flagged_def list_all_iff split: option.splits)

lemma summarizeSet_fold:
  assumes "flagged pd"
  shows "prSummary (fold (summarizeSet pd d n) ps acc) =
           prSummary acc @ map (itemOf pd d) (filter (keyPresent pd d) (map (\<lambda>p. (n, p)) ps))
       \<and> hasPR (fold (summarizeSet pd d n) ps acc) =
           (hasPR acc \<or> filter (keyPresent pd d) (map (\<lambda>p. (n, p)) ps) \<noteq> [])"
proof (induction ps arbitrary: acc)
  case Nil
  show ?case by simp
next
  case (Cons p ps)
  show ?case
  proof (cases "map_of pd (getPRKey d n (fst p))")
    case None
    then have "summarizeSet pd d n p acc = acc" by (simp add: summarizeSet_def)
    with None Cons show ?thesis by (simp add: keyPresent_def)
  next
    case (Some pr)
    with assms have fl: "truthy (maxWeightPR pr) \<or> truthy (repPR pr)"
      by (auto dest: flaggedD)
    with Some have "prSummary (summarizeSet pd d n p acc) = prSummary acc @ [itemOf pd d (n, p)]"
      and "hasPR (summarizeSet pd d n p acc)"
      by (auto simp: summarizeSet_def Let_def itemOf_def)
    with Some Cons show ?thesis by (simp add: keyPresent_def)
  qed
qed

lemma hasPR_summarizeSet_fold:
  "hasPR (fold (summarizeSet pd d n) ps acc) =
           (hasPR acc \<or> filter (keyPresent pd d) (map (\<lambda>p. (n, p)) ps) \<noteq> [])"
proof (induction ps arbitrary: acc)
  case Nil
  show ?case by simp
next
  case (Cons p ps)
  have "hasPR (summarizeSet pd d n p acc) = (hasPR acc \<or> keyPresent pd d (n, p))"
    by (auto simp: summarizeSet_def Let_def keyPresent_def split: option.splits)
  with Cons show ?case by auto
qed

lemma summarizeExercise_fold:
  assumes "flagged pd"
  shows "prSummary (fold (summarizeExercise pd d) exs acc) =
           prSummary acc @ map (itemOf pd d) (filter (keyPresent pd d) (concat (map exerciseSets exs)))"
proof (induction exs arbitrary: acc)
  case Nil
  show ?case by simp
next
  case (Cons ex exs)
  have "prSummary (summarizeExercise pd d ex acc) =
          prSummary acc @ map (itemOf pd d) (filter (keyPresent pd d) (exerciseSets ex))"
    using summarizeSet_fold [OF assms]
    by (simp add: summarizeExercise_def exerciseSets_def split: option.splits)
  with Cons show ?case by simp
qed

lemma hasPR_summarizeExercise_fold:
  "hasPR (fold (summarizeExercise pd d) exs acc) =
           (hasPR acc \<or> filter (keyPresent pd d) (concat (map exerciseSets exs)) \<noteq> [])"
proof (induction exs arbitrary: acc)
  case Nil
  show ?case by simp
next
  case (Cons ex exs)
  have "hasPR (summarizeExercise pd d ex acc) =
          (hasPR acc \<or> filter (keyPresent pd d) (exerciseSets ex) \<noteq> [])"
    using hasPR_summarizeSet_fold
    by (simp add: summarizeExercise_def exerciseSets_def split: option.splits)
  with Cons show ?case by auto
qed

lemmas recordSets_conv = recordSets_def

lemma prSummary_flagged:
  assumes "flagged pd"
  shows "prSummary (getPRSummaryForRecord r pd) =
           map (itemOf pd (date r)) (filter (keyPresent pd (date r)) (recordSets r))"
  using summarizeExercise_fold [OF assms]
  by (simp add: getPRSummaryForRecord_def recordSets_conv split: option.splits)

lemma hasPR_conv:
  "hasPR (getPRSummaryForRecord r pd) = (filter (keyPresent pd (date r)) (recordSets r) \<noteq> [])"
  using hasPR_summarizeExercise_fold
  by (simp add: getPRSummaryForRecord_def recordSets_conv split: option.splits)

subsection \<open>Entries stored by the replay\<close>

lemma set_update_cases: "e \<in> set (AList.update k v al) \<Longrightarrow> e = (k, v) \<or> e \<in> set al"
  by (induction al) (auto split: if_splits)

lemma processSet_entries:
  assumes "\<forall>e \<in> set (prData st). replayEntry (snd e)"
  shows "\<forall>e \<in> set (prData (processSet d n p st)). replayEntry (snd e)"
  using assms
  by (auto simp: processSet_def Let_def replayEntry_def dest!: set_update_cases)

lemma fold_processSet_entries:
  assumes "\<forall>e \<in> set (prData st). replayEntry (snd e)"
  shows "\<forall>e \<in> set (prData (fold (processSet d n) ps st)). replayEntry (snd e)"
  using assms
proof (induction ps arbitrary: st)
  case Nil
  then show ?case by simp
next
  case (Cons p ps)
  from Cons.prems have "\<forall>e \<in> set (prData (processSet d n p st)). replayEntry (snd e)"
    by (rule processSet_entries)
  then show ?case using Cons.IH by simp
qed

lemma processExercise_entries:
  assumes "\<forall>e \<in> set (prData st). replayEntry (snd e)"
  shows "\<forall>e \<in> set (prData (processExercise d ex st)). replayEntry (snd e)"
proof (cases "sets ex")
  case None
  with assms show ?thesis by (simp add: processExercise_def)
next
  case (Some ss)
  from assms have "\<forall>e \<in> set (prData (initExercise (name ex) st)). replayEntry (snd e)" by simp
  then have "\<forall>e \<in> set (prData (fold (processSet d (name ex)) (enumerate 0 ss)
                 (initExercise (name ex) st))). replayEntry (snd e)"
    by (rule fold_processSet_entries)
  with Some show ?thesis by (simp add: processExercise_def)
qed

lemma fold_processExercise_entries:
  assumes "\<forall>e \<in> set (prData st). replayEntry (snd e)"
  shows "\<forall>e \<in> set (prData (fold (processExercise d) exs st)). replayEntry (snd e)"
  using assms
proof (induction exs arbitrary: st)
  case Nil
  then show ?case by simp
next
  case (Cons ex exs)
  from Cons.prems have "\<forall>e \<in> set (prData (processExercise d ex st)). replayEntry (snd e)"
    by (rule processExercise_entries)
  then show ?case using Cons.IH by simp
qed

lemma processRecord_entries:
  assumes "\<forall>e \<in> set (prData st). replayEntry (snd e)"
  shows "\<forall>e \<in> set (prData (processRecord r st)). replayEntry (snd e)"
  using assms fold_processExercise_entries
  by (simp add: processRecord_def split: option.splits)

lemma fold_processRecord_entries:
  assumes "\<forall>e \<in> set (prData st). replayEntry (snd e)"
  shows "\<forall>e \<in> set (prData (fold processRecord rs st)). replayEntry (snd e)"
  using assms
proof (induction rs arbitrary: st)
  case Nil
  then show ?case by simp
next
  case (Cons r rs)
  from Cons.prems have "\<forall>e \<in> set (prData (processRecord r st)). replayEntry (snd e)"
    by (rule processRecord_entries)
  then show ?case using Cons.IH by simp
qed

lemma replay_entries: "\<forall>e \<in> set (prData (replay rs)). replayEntry (snd e)"
  unfolding replay_def by (rule fold_processRecord_entries) (simp add: emptyResult_def)

lemma maxima_markAll [simp]:
  "maxWeightByExercise (markAll st) = maxWeightByExercise st"
  "maxRepsAtMaxWeight (markAll st) = maxRepsAtMaxWeight st"
  by (simp_all add: markAll_def)

lemma markCurrent_flags [simp]:
  "repPR (markCurrent mw mr pr) = repPR pr"
  "maxWeightPR (markCurrent mw mr pr) = maxWeightPR pr"
  "pr_exercise (markCurrent mw mr pr) = pr_exercise pr"
  "pr_weight (markCurrent mw mr pr) = pr_weight pr"
  "pr_reps (markCurrent mw mr pr) = pr_reps pr"
  by (simp_all add: markCurrent_def Let_def)

lemma markCurrent_current:
  assumes "replayEntry pr"
  shows "(isCurrentMaxPR (markCurrent mw mr pr) = Some True \<longleftrightarrow>
            pr_exercise pr \<noteq> [] \<and> maxWeightPR pr = Some True
            \<and> map_of mw (pr_exercise pr) = Some (pr_weight pr))"
    and "(isCurrentRepPR (markCurrent mw mr pr) = Some True \<longleftrightarrow>
            pr_exercise pr \<noteq> [] \<and> map_of mw (pr_exercise pr) = Some (pr_weight pr)
            \<and> map_of mr (pr_exercise pr) = Some (pr_reps pr))"
  using assms
  by (auto simp: markCurrent_def Let_def replayEntry_def truthy_def strictEquals_get)

lemma calculatePRs_entry:
  assumes "e \<in> set (prData (calculatePRs rs))"
  obtains pr where "replayEntry pr"
    and "snd e = markCurrent (maxWeightByExercise (calculatePRs rs))
                   (maxRepsAtMaxWeight (calculatePRs rs)) pr"
proof -
  let ?st = "replay (sortBy compareByDate rs)"
  from assms obtain e0 where e0: "e0 \<in> set (prData ?st)"
    and e: "e = (fst e0, markCurrent (maxWeightByExercise ?st) (maxRepsAtMaxWeight ?st) (snd e0))"
    by (auto simp: calculatePRs_def markAll_def)
  from e0 replay_entries have "replayEntry (snd e0)" by blast
  moreover from e have "snd e = markCurrent (maxWeightByExercise (calculatePRs rs))
                   (maxRepsAtMaxWeight (calculatePRs rs)) (snd e0)"
    by (simp add: calculatePRs_def)
  ultimately show ?thesis by (rule that)
qed

lemma calculatePRs_flagged: "flagged (prData (calculatePRs rs))"
proof -
  have "truthy (maxWeightPR pr) \<or> truthy (repPR pr)"
    if "map_of (prData (calculatePRs rs)) key = Some pr" for key pr
  proof -
    from that have "(key, pr) \<in> set (prData (calculatePRs rs))" by (rule map_of_SomeD)
    then obtain pr0 where "replayEntry pr0" "pr = markCurrent (maxWeightByExercise (calculatePRs rs))
                   (maxRepsAtMaxWeight (calculatePRs rs)) pr0"
      by (rule calculatePRs_entry) simp
    then show ?thesis by (simp add: replayEntry_def truthy_def)
  qed
  then show ?thesis by (rule flaggedI)
qed

lemma benchTie_eval:
  "calculatePRs benchTie =
   \<lparr>prData =
      [(''2024-01-01_Bench_0'',
        \<lparr>maxWeightPR = Some True, repPR = Some True, isCurrentMaxPR = Some True,
         isCurrentRepPR = None, pr_date = ''2024-01-01'', pr_exercise = ''Bench'',
         pr_weight = 100, pr_reps = 5, setIndex = 0\<rparr>),
       (''2024-01-08_Bench_0'',
        \<lparr>maxWeightPR = None, repPR = Some True, isCurrentMaxPR = None,
         isCurrentRepPR = Some True, pr_date = ''2024-01-08'', pr_exercise = ''Bench'',
         pr_weight = 100, pr_reps = 8, setIndex = 0\<rparr>)],
    maxWeightByExercise = [(''Bench'', 100)],
    maxRepsAtMaxWeight = [(''Bench'', 8)]\<rparr>"
  by (simp add: benchTie_def calc_eval date_eval key_eval)

text \<open>
  Claim C10. Every entry of the map returned by \<open>calculatePRs\<close> has \<open>repPR\<close> true, and
  \<open>maxWeightPR\<close> true or absent; so for such a map the summary of any record has
  exactly one item per set whose key is present: the test on \<open>maxWeightPR\<close> or
  \<open>repPR\<close> inside \<open>getPRSummaryForRecord\<close> drops nothing.
\<close>

theorem calculatePRs_entries_repPR:
  "(\<forall>e \<in> set (prData (calculatePRs rs)).
       repPR (snd e) = Some True \<and> (maxWeightPR (snd e) = Some True \<or> maxWeightPR (snd e) = None))
   \<and> length (prSummary (getPRSummaryForRecord r (prData (calculatePRs rs)))) =
       length (filter (keyPresent (prData (calculatePRs rs)) (date r)) (recordSets r))"
proof
  show "\<forall>e \<in> set (prData (calculatePRs rs)).
       repPR (snd e) = Some True \<and> (maxWeightPR (snd e) = Some True \<or> maxWeightPR (snd e) = None)"
  proof
    fix e assume "e \<in> set (prData (calculatePRs rs))"
    then obtain pr where "replayEntry pr" "snd e = markCurrent (maxWeightByExercise (calculatePRs rs))
                   (maxRepsAtMaxWeight (calculatePRs rs)) pr"
      by (rule calculatePRs_entry)
    then show "repPR (snd e) = Some True \<and> (maxWeightPR (snd e) = Some True \<or> maxWeightPR (snd e) = None)"
      by (simp add: replayEntry_def)
  qed
next
  show "length (prSummary (getPRSummaryForRecord r (prData (calculatePRs rs)))) =
       length (filter (keyPresent (prData (calculatePRs rs)) (date r)) (recordSets r))"
    by (simp add: prSummary_flagged [OF calculatePRs_flagged])
qed

theorem calculatePRs_entries_repPR_witness:
  "(''2024-01-08_Bench_0'',
        \<lparr>maxWeightPR = None, repPR = Some True, isCurrentMaxPR = None,
         isCurrentRepPR = Some True, pr_date = ''2024-01-08'', pr_exercise = ''Bench'',
         pr_weight = 100, pr_reps = 8, setIndex = 0\<rparr>) \<in> set (prData (calculatePRs benchTie))
   \<and> repPR \<lparr>maxWeightPR = None, repPR = Some True, isCurrentMaxPR = None,
         isCurrentRepPR = Some True, pr_date = ''2024-01-08'', pr_exercise = ''Bench'',
         pr_weight = 100, pr_reps = 8, setIndex = 0\<rparr> = Some True
   \<and> length (prSummary (getPRSummaryForRecord (singleSetRecord ''2024-01-08'' ''Bench'' 100 8)
        (prData (calculatePRs benchTie)))) = 1"
  using calculatePRs_entries_repPR
    [of benchTie "singleSetRecord ''2024-01-08'' ''Bench'' 100 8"]
  by (simp add: benchTie_eval summary_eval key_eval)

text \<open>
  Claim C2, as amended. The second pass sets \<open>isCurrentMaxPR\<close> exactly on the entries
  with a non-empty exercise name that carry \<open>maxWeightPR\<close> and whose weight is the final
  maximum of the exercise; it sets \<open>isCurrentRepPR\<close> exactly on the entries with a
  non-empty exercise name whose weight is the final maximum and whose repetitions are
  the final repetitions at that weight.
\<close>

theorem calculatePRs_current_flags:
  "\<forall>e \<in> set (prData (calculatePRs rs)).
     (isCurrentMaxPR (snd e) = Some True \<longleftrightarrow>
        pr_exercise (snd e) \<noteq> [] \<and> maxWeightPR (snd e) = Some True
        \<and> map_of (maxWeightByExercise (calculatePRs rs)) (pr_exercise (snd e))
              = Some (pr_weight (snd e)))
   \<and> (isCurrentRepPR (snd e) = Some True \<longleftrightarrow>
        pr_exercise (snd e) \<noteq> []
        \<and> map_of (maxWeightByExercise (calculatePRs rs)) (pr_exercise (snd e))
              = Some (pr_weight (snd e))
        \<and> map_of (maxRepsAtMaxWeight (calculatePRs rs)) (pr_exercise (snd e))
              = Some (pr_reps (snd e)))"
proof
  fix e assume "e \<in> set (prData (calculatePRs rs))"
  then obtain pr where pr: "replayEntry pr"
    and e: "snd e = markCurrent (maxWeightByExercise (calculatePRs rs))
                   (maxRepsAtMaxWeight (calculatePRs rs)) pr"
    by (rule calculatePRs_entry)
  show "(isCurrentMaxPR (snd e) = Some True \<longleftrightarrow>
        pr_exercise (snd e) \<noteq> [] \<and> maxWeightPR (snd e) = Some True
        \<and> map_of (maxWeightByExercise (calculatePRs rs)) (pr_exercise (snd e))
              = Some (pr_weight (snd e)))
   \<and> (isCurrentRepPR (snd e) = Some True \<longleftrightarrow>
        pr_exercise (snd e) \<noteq> []
        \<and> map_of (maxWeightByExercise (calculatePRs rs)) (pr_exercise (snd e))
              = Some (pr_weight (snd e))
        \<and> map_of (maxRepsAtMaxWeight (calculatePRs rs)) (pr_exercise (snd e))
              = Some (pr_reps (snd e)))"
    unfolding e using markCurrent_current [OF pr] by simp
qed

theorem calculatePRs_current_flags_witness:
  "(''2024-01-01_Bench_0'',
        \<lparr>maxWeightPR = Some True, repPR = Some True, isCurrentMaxPR = Some True,
         isCurrentRepPR = None, pr_date = ''2024-01-01'', pr_exercise = ''Bench'',
         pr_weight = 100, pr_reps = 5, setIndex = 0\<rparr>) \<in> set (prData (calculatePRs benchTie))
   \<and> map_of (maxWeightByExercise (calculatePRs benchTie)) ''Bench'' = Some 100
   \<and> map_of (maxRepsAtMaxWeight (calculatePRs benchTie)) ''Bench'' \<noteq> Some 5"
  using calculatePRs_current_flags [of benchTie]
  by (simp add: benchTie_eval)

text \<open>
  The claim as stated asks for no historical flag. In \<open>benchTie\<close> (100 kg for 5, a week
  later 100 kg for 8) the later entry has the final maximum weight and is stored without
  \<open>maxWeightPR\<close>: its \<open>isCurrentMaxPR\<close> stays unset.
\<close>

theorem calculatePRs_current_flags_counterexample:
  "map_of (prData (calculatePRs benchTie)) ''2024-01-08_Bench_0'' =
     Some \<lparr>maxWeightPR = None, repPR = Some True, isCurrentMaxPR = None,
           isCurrentRepPR = Some True, pr_date = ''2024-01-08'', pr_exercise = ''Bench'',
           pr_weight = 100, pr_reps = 8, setIndex = 0\<rparr>
   \<and> map_of (maxWeightByExercise (calculatePRs benchTie)) ''Bench'' = Some 100"
  by (simp add: benchTie_eval)

text \<open>
  Claim C6, as amended. For a flagged PR map (every map of \<open>calculatePRs\<close> is one) the
  summary holds one item per set of the record whose key is present, in iteration order;
  for every PR map \<open>hasPR\<close> is true exactly when at least one key is present.
\<close>

theorem getPRSummaryForRecord_summary:
  "(flagged pd \<longrightarrow>
      prSummary (getPRSummaryForRecord r pd) =
        map (itemOf pd (date r)) (filter (keyPresent pd (date r)) (recordSets r))
      \<and> length (prSummary (getPRSummaryForRecord r pd)) =
        length (filter (keyPresent pd (date r)) (recordSets r)))
   \<and> (hasPR (getPRSummaryForRecord r pd) \<longleftrightarrow>
        1 \<le> length (filter (keyPresent pd (date r)) (recordSets r)))"
proof -
  have "1 \<le> length xs \<longleftrightarrow> xs \<noteq> []" for xs :: "(string \<times> nat \<times> TrainingSet) list"
    by (cases xs) simp_all
  then show ?thesis
    by (simp add: prSummary_flagged hasPR_conv)
qed

theorem getPRSummaryForRecord_summary_witness:
  "flagged (prData (calculatePRs benchTie))
   \<and> prSummary (getPRSummaryForRecord (singleSetRecord ''2024-01-08'' ''Bench'' 100 8)
        (prData (calculatePRs benchTie))) =
       [\<lparr>ps_exercise = ''Bench'', ps_weight = 100, ps_reps = 8, isMaxWeightPR = False,
         isRepPR = True, ps_isCurrentMaxPR = False, ps_isCurrentRepPR = True\<rparr>]
   \<and> hasPR (getPRSummaryForRecord (singleSetRecord ''2024-01-08'' ''Bench'' 100 8)
        (prData (calculatePRs benchTie)))"
  using getPRSummaryForRecord_summary
    [of "prData (calculatePRs benchTie)" "singleSetRecord ''2024-01-08'' ''Bench'' 100 8"]
  by (simp add: benchTie_eval summary_eval key_eval flagged_def)

text \<open>
  For an arbitrary PR map the count fails: the entry of \<open>unflaggedMap\<close> carries neither
  flag, its key is present, and the summary is empty.
\<close>

theorem getPRSummaryForRecord_summary_counterexample:
  "length (prSummary (getPRSummaryForRecord (singleSetRecord ''2024-01-01'' ''Bench'' 100 5)
       unflaggedMap)) = 0
   \<and> length (filter (keyPresent unflaggedMap ''2024-01-01'')
         (recordSets (singleSetRecord ''2024-01-01'' ''Bench'' 100 5))) = 1"
  by (simp add: unflaggedMap_def summary_eval key_eval)

subsection \<open>Weight 0 and the test \<open>!maxWeightByExercise[exerciseName]\<close>\<close>

text \<open>
  Once a set of weight \<open>w\<close> with \<open>r\<close> repetitions has been replayed, the state covers
  \<open>(w, r)\<close>. For \<open>w \<noteq> 0\<close> every later step of the replay keeps it covered, and a
  covered set with at most \<open>r\<close> repetitions changes nothing. For \<open>w = 0\<close> the
  initialisation of a later exercise block breaks the cover.
\<close>

lemma covered_no_entry:
  assumes "covered st n w r" and "r' \<le> r"
  shows "processSet d n (i, \<lparr>weight = w, reps = r'\<rparr>) st = st"
  using assms
  by (auto simp: covered_def processSet_def Let_def greaterThan_get strictEquals_get
      split: option.splits)

lemma processSet_covers:
  assumes "map_of (maxWeightByExercise st) n \<noteq> None"
    and "map_of (maxRepsAtMaxWeight st) n \<noteq> None"
  shows "covered (processSet d n (i, s) st) n (weight s) (reps s)"
  using assms
  by (auto simp: covered_def processSet_def Let_def greaterThan_get strictEquals_get update_conv'
      split: option.splits)

lemma processSet_covered:
  assumes "covered st n w r"
  shows "covered (processSet d n' p st) n w r"
  using assms
  by (auto simp: covered_def processSet_def Let_def greaterThan_get strictEquals_get update_conv'
      split: option.splits)

lemma fold_processSet_covered:
  assumes "covered st n w r"
  shows "covered (fold (processSet d n') ps st) n w r"
  using assms by (induction ps arbitrary: st) (simp_all add: processSet_covered)

lemma initExercise_covered:
  assumes "covered st n w r" and "w \<noteq> 0"
  shows "covered (initExercise n' st) n w r"
  using assms
  by (auto simp: covered_def initExercise_def falsyNumber_get update_conv' split: option.splits)

lemma processExercise_covered:
  assumes "covered st n w r" and "w \<noteq> 0"
  shows "covered (processExercise d ex st) n w r"
  using assms
  by (simp add: processExercise_def Let_def initExercise_covered fold_processSet_covered
      split: option.splits)

lemma fold_processExercise_covered:
  assumes "covered st n w r" and "w \<noteq> 0"
  shows "covered (fold (processExercise d) exs st) n w r"
  using assms by (induction exs arbitrary: st) (simp_all add: processExercise_covered)

lemma processRecord_covered:
  assumes "covered st n w r" and "w \<noteq> 0"
  shows "covered (processRecord rec st) n w r"
  using assms by (simp add: processRecord_def fold_processExercise_covered split: option.splits)

lemma fold_processRecord_covered:
  assumes "covered st n w r" and "w \<noteq> 0"
  shows "covered (fold processRecord rs st) n w r"
  using assms by (induction rs arbitrary: st) (simp_all add: processRecord_covered)

lemma initExercise_defined:
  assumes "n \<notin> set objectPrototypeNames"
  shows "map_of (maxWeightByExercise (initExercise n st)) n \<noteq> None"
  using assms by (auto simp: initExercise_def falsyNumber_get update_conv' split: option.splits)

lemma processSet_defined:
  assumes "map_of (maxWeightByExercise st) n \<noteq> None"
  shows "map_of (maxWeightByExercise (processSet d n' p st)) n \<noteq> None"
  using assms by (auto simp: processSet_def Let_def update_conv')

text \<open>
  Claim C1. A set that neither exceeds the running maximum weight nor ties it with more
  repetitions creates no entry; the claim extends this to a repeated weight of 0. Here
  the code departs from it: \<open>initExercise\<close> reads a running maximum of 0 as "not yet
  seen" and resets the running repetitions, so in \<open>plankRepeat\<close> (0 kg for 5, a week
  later 0 kg for 5 again) the second occurrence is stored as a repetition record.
\<close>

theorem calculatePRs_zero_weight_repeat:
  "map_of (prData (calculatePRs plankRepeat)) ''2024-01-08_Plank_0'' =
     Some \<lparr>maxWeightPR = None, repPR = Some True, isCurrentMaxPR = None,
           isCurrentRepPR = Some True, pr_date = ''2024-01-08'', pr_exercise = ''Plank'',
           pr_weight = 0, pr_reps = 5, setIndex = 0\<rparr>"
  by (simp add: plankRepeat_def calc_eval date_eval key_eval)

text \<open>
  The maxima of a name that has a set of positive weight are the all-time best: the
  reset of the repetitions only happens while the maximum weight is 0. The name must
  not be one that \<open>Object.prototype\<close> provides: under such a name nothing is ever
  stored.
\<close>

lemma bestOf_Nil: "bestOf [] 0 0"
  by (simp add: bestOf_def)

lemma bestOf_bounds:
  assumes "bestOf S mw mr" and "s \<in> set S"
  shows "weight s \<le> mw"
proof (cases "\<exists>x \<in> set S. 0 < weight x")
  case True
  with assms(1) have "mw = Max (weight ` set S)" by (simp add: bestOf_def)
  with assms(2) show ?thesis by simp
next
  case False
  with assms show ?thesis by (auto simp: bestOf_def not_less)
qed

lemma bestOf_positive:
  assumes "bestOf S mw mr" and "\<exists>x \<in> set S. 0 < weight x"
  shows "0 < mw" and "\<exists>x \<in> set S. weight x = mw"
proof -
  from assms have mw: "mw = Max (weight ` set S)" by (simp add: bestOf_def)
  from assms(2) have ne: "weight ` set S \<noteq> {}" by auto
  from assms(2) obtain x where x: "x \<in> set S" "0 < weight x" by blast
  then have "weight x \<le> mw" unfolding mw by simp
  with x show "0 < mw" by simp
  have "Max (weight ` set S) \<in> weight ` set S" using ne by (intro Max_in) simp_all
  then show "\<exists>x \<in> set S. weight x = mw" unfolding mw by auto
qed

lemma bestOf_new_weight:
  assumes "bestOf S mw mr" and "mw < weight s"
  shows "bestOf (S @ [s]) (weight s) (reps s)"
proof -
  have le: "weight x \<le> mw" if "x \<in> set S" for x using assms(1) that by (rule bestOf_bounds)
  have pos: "0 < weight s"
  proof (cases "\<exists>x \<in> set S. 0 < weight x")
    case True
    from bestOf_positive(1) [OF assms(1) True] assms(2) show ?thesis by simp
  next
    case False
    with assms(1) have "mw = 0" by (simp add: bestOf_def)
    with assms(2) show ?thesis by simp
  qed
  have "Max (weight ` set (S @ [s])) = weight s"
    by (rule Max_eqI) (use le assms(2) in \<open>auto simp: less_imp_le dest: le\<close>)
  moreover have "{x \<in> set (S @ [s]). weight x = weight s} = {s}"
    using le assms(2) by (auto dest: le)
  ultimately show ?thesis using pos by (auto simp: bestOf_def)
qed

lemma bestOf_new_reps:
  assumes "bestOf S mw mr" and "weight s = mw" and "mr < reps s"
  shows "bestOf (S @ [s]) mw (reps s)"
proof (cases "\<exists>x \<in> set S. 0 < weight x")
  case True
  from assms(1) True have mw: "mw = Max (weight ` set S)"
    and mr: "mr = Max (reps ` {x \<in> set S. weight x = mw})" by (simp_all add: bestOf_def)
  from bestOf_positive(2) [OF assms(1) True] have ne: "{x \<in> set S. weight x = mw} \<noteq> {}" by auto
  have w: "Max (weight ` set (S @ [s])) = mw"
    by (rule Max_eqI) (use assms(1,2) in \<open>auto dest: bestOf_bounds\<close>)
  have "{x \<in> set (S @ [s]). weight x = mw} = insert s {x \<in> set S. weight x = mw}"
    using assms(2) by auto
  then have "Max (reps ` {x \<in> set (S @ [s]). weight x = mw}) = max (reps s) mr"
    using ne by (simp add: mr)
  with assms(3) w True show ?thesis by (auto simp: bestOf_def max_def)
next
  case False
  with assms(1) have "mw = 0" by (simp add: bestOf_def)
  with False assms(2) show ?thesis by (auto simp: bestOf_def)
qed

lemma bestOf_no_record:
  assumes "bestOf S mw mr" and "\<not> mw < weight s" and "\<not> (weight s = mw \<and> mr < reps s)"
  shows "bestOf (S @ [s]) mw mr"
proof (cases "\<exists>x \<in> set S. 0 < weight x")
  case True
  from assms(1) True have mw: "mw = Max (weight ` set S)"
    and mr: "mr = Max (reps ` {x \<in> set S. weight x = mw})" by (simp_all add: bestOf_def)
  from bestOf_positive(2) [OF assms(1) True] have ne: "{x \<in> set S. weight x = mw} \<noteq> {}" by auto
  from bestOf_positive(2) [OF assms(1) True] obtain y where y: "y \<in> set S" "weight y = mw" by blast
  have w: "Max (weight ` set (S @ [s])) = mw"
    by (rule Max_eqI) (use assms(1,2) y in \<open>auto dest: bestOf_bounds\<close>)
  have r: "Max (reps ` {x \<in> set (S @ [s]). weight x = mw}) = mr"
  proof (cases "weight s = mw")
    case True
    then have "{x \<in> set (S @ [s]). weight x = mw} = insert s {x \<in> set S. weight x = mw}"
      by auto
    then have "Max (reps ` {x \<in> set (S @ [s]). weight x = mw}) = max (reps s) mr"
      using ne by (simp add: mr)
    with True assms(3) show ?thesis by (simp add: max_def)
  next
    case False
    then have "{x \<in> set (S @ [s]). weight x = mw} = {x \<in> set S. weight x = mw}" by auto
    then show ?thesis by (simp add: mr)
  qed
  from w r True show ?thesis by (auto simp: bestOf_def)
next
  case False
  with assms(1) have "mw = 0" by (simp add: bestOf_def)
  with False assms(2) show ?thesis by (auto simp: bestOf_def not_less)
qed

lemma bestOf_reset:
  assumes "bestOf S 0 mr"
  shows "bestOf S 0 0"
proof (cases "\<exists>x \<in> set S. 0 < weight x")
  case True
  from bestOf_positive(1) [OF assms True] show ?thesis by simp
next
  case False
  then show ?thesis by (simp add: bestOf_def)
qed

lemma maxima_processSet_other:
  assumes "n' \<noteq> n"
  shows "map_of (maxWeightByExercise (processSet d n' p st)) n = map_of (maxWeightByExercise st) n"
    and "map_of (maxRepsAtMaxWeight (processSet d n' p st)) n = map_of (maxRepsAtMaxWeight st) n"
  using assms by (simp_all add: processSet_def Let_def update_conv')

lemma maxima_initExercise_other:
  assumes "n' \<noteq> n"
  shows "map_of (maxWeightByExercise (initExercise n' st)) n = map_of (maxWeightByExercise st) n"
    and "map_of (maxRepsAtMaxWeight (initExercise n' st)) n = map_of (maxRepsAtMaxWeight st) n"
  using assms by (simp_all add: initExercise_def update_conv')

lemma tracks_processSet_other:
  assumes "tracks st n S" and "n' \<noteq> n"
  shows "tracks (processSet d n' p st) n S"
  using assms(1) unfolding tracks_def maxima_processSet_other [OF assms(2)] .

lemma tracks_processSet_same:
  assumes "tracks st n S" and "map_of (maxWeightByExercise st) n \<noteq> None"
  shows "tracks (processSet d n p st) n (S @ [snd p])"
proof -
  from assms obtain mw mr where m: "map_of (maxWeightByExercise st) n = Some mw"
    "map_of (maxRepsAtMaxWeight st) n = Some mr" and b: "bestOf S mw mr"
    by (auto simp: tracks_def split: option.splits)
  show ?thesis
  proof (cases "mw < weight (snd p)")
    case True
    with m bestOf_new_weight [OF b True] show ?thesis
      by (simp add: tracks_def processSet_def Let_def greaterThan_get update_conv')
  next
    case False
    show ?thesis
    proof (cases "weight (snd p) = mw \<and> mr < reps (snd p)")
      case True
      with m False bestOf_new_reps [OF b, of "snd p"] show ?thesis
        by (simp add: tracks_def processSet_def Let_def greaterThan_get strictEquals_get
            update_conv')
    next
      case nr: False
      with m False bestOf_no_record [OF b False nr] show ?thesis
        by (auto simp: tracks_def processSet_def Let_def greaterThan_get strictEquals_get)
    qed
  qed
qed

lemma tracks_fold_processSet_other:
  assumes "tracks st n S" and "n' \<noteq> n"
  shows "tracks (fold (processSet d n') ps st) n S"
  using assms by (induction ps arbitrary: st) (simp_all add: tracks_processSet_other)

lemma tracks_fold_processSet_same:
  assumes "tracks st n S" and "map_of (maxWeightByExercise st) n \<noteq> None"
  shows "tracks (fold (processSet d n) ps st) n (S @ map snd ps)"
  using assms
proof (induction ps arbitrary: st S)
  case Nil
  then show ?case by simp
next
  case (Cons p ps)
  have "tracks (fold (processSet d n) ps (processSet d n p st)) n ((S @ [snd p]) @ map snd ps)"
    by (rule Cons.IH) (use Cons.prems in \<open>simp_all add: tracks_processSet_same processSet_defined\<close>)
  then show ?case by simp
qed

lemma tracks_initExercise_other:
  assumes "tracks st n S" and "n' \<noteq> n"
  shows "tracks (initExercise n' st) n S"
  using assms(1) unfolding tracks_def maxima_initExercise_other [OF assms(2)] .

lemma tracks_initExercise_same:
  assumes "tracks st n S" and "n \<notin> set objectPrototypeNames"
  shows "tracks (initExercise n st) n S"
proof (cases "map_of (maxWeightByExercise st) n")
  case None
  with assms show ?thesis
    by (simp add: tracks_def initExercise_def falsyNumber_get update_conv' bestOf_Nil)
next
  case (Some mw)
  with assms obtain mr where mr: "map_of (maxRepsAtMaxWeight st) n = Some mr"
    and b: "bestOf S mw mr"
    by (auto simp: tracks_def split: option.splits)
  show ?thesis
  proof (cases "mw = 0")
    case True
    with b have "bestOf S 0 0" by (auto intro: bestOf_reset)
    with Some True show ?thesis
      by (simp add: tracks_def initExercise_def falsyNumber_get update_conv')
  next
    case False
    with Some assms show ?thesis by (simp add: initExercise_def falsyNumber_get)
  qed
qed

lemma map_snd_enumerate: "map snd (enumerate k xs) = xs"
  by (simp add: enumerate_eq_zip)

lemma tracks_processExercise:
  assumes "tracks st n S" and np: "n \<notin> set objectPrototypeNames"
  shows "tracks (processExercise d ex st) n (S @ setsNamed n ex)"
proof (cases "name ex = n")
  case True
  have i: "tracks (initExercise n st) n S" by (rule tracks_initExercise_same [OF assms])
  show ?thesis
  proof (cases "sets ex")
    case None
    with True i show ?thesis by (simp add: processExercise_def Let_def setsNamed_def)
  next
    case (Some ss)
    from tracks_fold_processSet_same [OF i initExercise_defined [OF np], of d "enumerate 0 ss"]
    show ?thesis using True Some
      by (simp add: processExercise_def Let_def setsNamed_def map_snd_enumerate)
  qed
next
  case False
  then have i: "tracks (initExercise (name ex) st) n S"
    using assms(1) by (intro tracks_initExercise_other) simp_all
  from False have "setsNamed n ex = []" by (simp add: setsNamed_def)
  with False i show ?thesis
    by (simp add: processExercise_def Let_def tracks_fold_processSet_other split: option.splits)
qed

lemma tracks_fold_processExercise:
  assumes "tracks st n S" and np: "n \<notin> set objectPrototypeNames"
  shows "tracks (fold (processExercise d) exs st) n (S @ concat (map (setsNamed n) exs))"
  using assms(1)
proof (induction exs arbitrary: st S)
  case Nil
  then show ?case by simp
next
  case (Cons ex exs)
  from Cons.prems np have "tracks (processExercise d ex st) n (S @ setsNamed n ex)"
    by (rule tracks_processExercise)
  from Cons.IH [OF this] show ?case by simp
qed

lemma tracks_fold_processRecord:
  assumes "tracks st n S" and np: "n \<notin> set objectPrototypeNames"
  shows "tracks (fold processRecord rs st) n (S @ historyOf n rs)"
  using assms(1)
proof (induction rs arbitrary: st S)
  case Nil
  then show ?case by (simp add: historyOf_def)
next
  case (Cons r rs)
  let ?exs = "case exercises r of None \<Rightarrow> [] | Some exs \<Rightarrow> exs"
  from Cons.prems have "tracks (processRecord r st) n (S @ concat (map (setsNamed n) ?exs))"
    using tracks_fold_processExercise [OF _ np, of st S "date r"]
    by (simp add: processRecord_def split: option.splits)
  from Cons.IH [OF this] show ?case by (simp add: historyOf_def)
qed

lemma tracks_replay:
  assumes "n \<notin> set objectPrototypeNames"
  shows "tracks (replay rs) n (historyOf n rs)"
  using tracks_fold_processRecord [OF _ assms, of emptyResult "[]" rs]
  by (simp add: replay_def tracks_def emptyResult_def)

lemma set_insertBy [simp]: "set (insertBy cmp x ys) = insert x (set ys)"
  by (induction ys) auto

lemma set_sortBy [simp]: "set (sortBy cmp xs) = set xs"
  by (induction xs) (simp_all add: sortBy_def)

lemma set_historyOf:
  "set (historyOf n rs) =
     (\<Union>r \<in> set rs. \<Union>ex \<in> set (case exercises r of None \<Rightarrow> [] | Some exs \<Rightarrow> exs).
        set (setsNamed n ex))"
  by (simp add: historyOf_def)

lemma calculatePRs_maxima_positive:
  assumes "\<exists>s \<in> set (historyOf n rs). 0 < weight s"
    and np: "n \<notin> set objectPrototypeNames"
  shows "map_of (maxWeightByExercise (calculatePRs rs)) n
           = Some (Max (weight ` set (historyOf n rs)))"
    and "map_of (maxRepsAtMaxWeight (calculatePRs rs)) n
           = Some (Max (reps ` {s \<in> set (historyOf n rs).
                                weight s = Max (weight ` set (historyOf n rs))}))"
proof -
  let ?sorted = "sortBy compareByDate rs"
  have e: "set (historyOf n ?sorted) = set (historyOf n rs)" by (simp add: set_historyOf)
  have t: "tracks (replay ?sorted) n (historyOf n ?sorted)" by (rule tracks_replay [OF np])
  from assms(1) e have p: "\<exists>s \<in> set (historyOf n ?sorted). 0 < weight s" by simp
  from t p e show "map_of (maxWeightByExercise (calculatePRs rs)) n
           = Some (Max (weight ` set (historyOf n rs)))"
    by (auto simp: tracks_def bestOf_def calculatePRs_def markAll_def split: option.splits)
  from t p e show "map_of (maxRepsAtMaxWeight (calculatePRs rs)) n
           = Some (Max (reps ` {s \<in> set (historyOf n rs).
                                weight s = Max (weight ` set (historyOf n rs))}))"
    by (auto simp: tracks_def bestOf_def calculatePRs_def markAll_def split: option.splits)
qed

text \<open>
  Claim C3. The returned maxima are meant to be the all-time best per exercise name. By
  the same reset, in \<open>plankDrop\<close> (0 kg for 8, a week later 0 kg for 5) the returned
  repetitions at the maximum weight 0 are 5, not 8.
\<close>

theorem calculatePRs_zero_weight_maxima:
  "map_of (maxWeightByExercise (calculatePRs plankDrop)) ''Plank'' = Some 0
   \<and> map_of (maxRepsAtMaxWeight (calculatePRs plankDrop)) ''Plank'' = Some 5"
  by (simp add: plankDrop_def calc_eval date_eval key_eval)

subsection \<open>Time values of calendar dates\<close>

lemma digitVal_less: "digitVal c = Some a \<Longrightarrow> a < 10"
  by (auto simp: digitVal_def Let_def split: if_splits)

lemma digitVal_inj:
  assumes "digitVal c = Some a" "digitVal c' = Some a"
  shows "c = c'"
proof -
  from assms have "48 \<le> (of_char c :: nat)" "48 \<le> (of_char c' :: nat)"
    "(of_char c :: nat) - 48 = of_char c' - 48"
    by (auto simp: digitVal_def Let_def split: if_splits)
  then have "(of_char c :: nat) = of_char c'" by linarith
  then show ?thesis by simp
qed

lemma div_step:
  fixes k n :: int
  assumes "0 < n"
  shows "(k + 1) div n = k div n + (if n dvd (k + 1) then 1 else 0)"
proof (cases "k mod n + 1 = n")
  case True
  have "k + 1 = n * (k div n + 1) + 0"
    using True by (metis add.right_neutral distrib_left mult.right_neutral add.assoc mult_div_mod_eq)
  then have e: "k + 1 = n * (k div n + 1)" by simp
  then have "(k + 1) div n = k div n + 1" using assms
    by (metis nonzero_mult_div_cancel_left less_irrefl)
  moreover have "n dvd (k + 1)" using e by (metis dvd_triv_left)
  ultimately show ?thesis by simp
next
  case False
  have r: "0 \<le> k mod n" "k mod n < n" using assms by simp_all
  with False have lt: "k mod n + 1 < n" by linarith
  have e: "k + 1 = n * (k div n) + (k mod n + 1)" by simp
  have d: "(k + 1) div n = k div n"
    by (rule int_div_pos_eq [OF e]) (use r lt in simp_all)
  have m: "(k + 1) mod n = k mod n + 1"
    by (rule int_mod_pos_eq [OF e]) (use r lt in simp_all)
  with r have "\<not> n dvd (k + 1)" by (simp add: dvd_eq_mod_eq_0)
  with d show ?thesis by simp
qed

lemma digit_split:
  fixes x d x' d' :: nat
  assumes "d < 10" "d' < 10" "10 * x + d = 10 * x' + d'"
  shows "x = x' \<and> d = d'"
  using assms by presburger

lemma four_digits_inj:
  fixes a b c d a' b' c' d' :: nat
  assumes "a < 10" "b < 10" "c < 10" "d < 10" "a' < 10" "b' < 10" "c' < 10" "d' < 10"
    and "1000 * a + 100 * b + 10 * c + d = 1000 * a' + 100 * b' + 10 * c' + d'"
  shows "a = a' \<and> b = b' \<and> c = c' \<and> d = d'"
proof -
  from assms(9) have "10 * (100 * a + 10 * b + c) + d = 10 * (100 * a' + 10 * b' + c') + d'"
    by simp
  from digit_split [OF assms(4) assms(8) this]
  have 1: "100 * a + 10 * b + c = 100 * a' + 10 * b' + c'" and d: "d = d'" by simp_all
  from 1 have "10 * (10 * a + b) + c = 10 * (10 * a' + b') + c'" by simp
  from digit_split [OF assms(3) assms(7) this]
  have 2: "10 * a + b = 10 * a' + b'" and c: "c = c'" by simp_all
  from digit_split [OF assms(2) assms(6) 2] d c show ?thesis by simp
qed

lemma dateFields_SomeD:
  assumes "dateFields s = Some (y, m, dd)"
  shows "\<exists>c1 c2 c3 c4 c5 c6 c7 c8 a b c d e f g h.
           s = [c1, c2, c3, c4, CHR ''-'', c5, c6, CHR ''-'', c7, c8]
         \<and> digitVal c1 = Some a \<and> digitVal c2 = Some b \<and> digitVal c3 = Some c
         \<and> digitVal c4 = Some d \<and> digitVal c5 = Some e \<and> digitVal c6 = Some f
         \<and> digitVal c7 = Some g \<and> digitVal c8 = Some h
         \<and> y = 1000 * a + 100 * b + 10 * c + d \<and> m = 10 * e + f \<and> dd = 10 * g + h"
  using assms unfolding dateFields_def
  by (auto split: list.splits if_splits option.splits)


lemma dateFields_inj:
  assumes "dateFields s = Some (y, m, dd)" and "dateFields s' = Some (y, m, dd)"
  shows "s = s'"
proof -
  from dateFields_SomeD [OF assms(1)] obtain c1 c2 c3 c4 c5 c6 c7 c8 a b c d e f g h where
    s: "s = [c1, c2, c3, c4, CHR ''-'', c5, c6, CHR ''-'', c7, c8]"
    and v: "digitVal c1 = Some a" "digitVal c2 = Some b" "digitVal c3 = Some c"
      "digitVal c4 = Some d" "digitVal c5 = Some e" "digitVal c6 = Some f"
      "digitVal c7 = Some g" "digitVal c8 = Some h"
    and y: "y = 1000 * a + 100 * b + 10 * c + d" and m: "m = 10 * e + f"
    and dd: "dd = 10 * g + h"
    by blast
  from dateFields_SomeD [OF assms(2)] obtain k1 k2 k3 k4 k5 k6 k7 k8 a' b' c' d' e' f' g' h' where
    s': "s' = [k1, k2, k3, k4, CHR ''-'', k5, k6, CHR ''-'', k7, k8]"
    and v': "digitVal k1 = Some a'" "digitVal k2 = Some b'" "digitVal k3 = Some c'"
      "digitVal k4 = Some d'" "digitVal k5 = Some e'" "digitVal k6 = Some f'"
      "digitVal k7 = Some g'" "digitVal k8 = Some h'"
    and y': "y = 1000 * a' + 100 * b' + 10 * c' + d'" and m': "m = 10 * e' + f'"
    and dd': "dd = 10 * g' + h'"
    by blast
  note lt = v [THEN digitVal_less] and lt' = v' [THEN digitVal_less]
  have "a = a' \<and> b = b' \<and> c = c' \<and> d = d'"
    by (rule four_digits_inj [OF lt(1-4) lt'(1-4)]) (use y y' in simp)
  moreover have "e = e' \<and> f = f'"
    by (rule digit_split [OF lt(6) lt'(6)]) (use m m' in simp)
  moreover have "g = g' \<and> h = h'"
    by (rule digit_split [OF lt(8) lt'(8)]) (use dd dd' in simp)
  ultimately have "c1 = k1" "c2 = k2" "c3 = k3" "c4 = k4" "c5 = k5" "c6 = k6" "c7 = k7" "c8 = k8"
    using v v' by (auto intro: digitVal_inj)
  with s s' show ?thesis by simp
qed

lemma dvd_mod_shift:
  fixes n :: int
  shows "n dvd (int y - c * n) \<longleftrightarrow> n dvd int y"
  by (simp add: dvd_diff_left_iff)

lemma leap_dvd: "isLeapYear y \<longleftrightarrow> (4 dvd y \<and> \<not> 100 dvd y) \<or> 400 dvd y"
  by (simp add: isLeapYear_def dvd_eq_mod_eq_0)

lemma dayFromYear_Suc:
  "dayFromYear (Suc y) = dayFromYear y + 365 + (if isLeapYear y then 1 else 0)"
proof -
  have four: "(4::int) dvd (int y - 1969 + 1) \<longleftrightarrow> 4 dvd y"
    using dvd_mod_shift [of 4 y 492] by (simp add: int_dvd_int_iff [symmetric] del: int_dvd_int_iff)
  have hundred: "(100::int) dvd (int y - 1901 + 1) \<longleftrightarrow> 100 dvd y"
    using dvd_mod_shift [of 100 y 19] by (simp add: int_dvd_int_iff [symmetric] del: int_dvd_int_iff)
  have fourhundred: "(400::int) dvd (int y - 1601 + 1) \<longleftrightarrow> 400 dvd y"
    using dvd_mod_shift [of 400 y 4] by (simp add: int_dvd_int_iff [symmetric] del: int_dvd_int_iff)
  have a: "(int (Suc y) - 1969) div 4 = (int y - 1969) div 4 + (if 4 dvd y then 1 else 0)"
    using div_step [of 4 "int y - 1969"] four by (simp add: algebra_simps)
  have b: "(int (Suc y) - 1901) div 100 = (int y - 1901) div 100 + (if 100 dvd y then 1 else 0)"
    using div_step [of 100 "int y - 1901"] hundred by (simp add: algebra_simps)
  have c: "(int (Suc y) - 1601) div 400 = (int y - 1601) div 400 + (if 400 dvd y then 1 else 0)"
    using div_step [of 400 "int y - 1601"] fourhundred by (simp add: algebra_simps)
  have i1: "400 dvd y \<Longrightarrow> 100 dvd y" by (rule dvd_trans [of 100 400]) simp_all
  have i2: "100 dvd y \<Longrightarrow> 4 dvd y" by (rule dvd_trans [of 4 100]) simp_all
  show ?thesis
    unfolding dayFromYear_def a b c leap_dvd using i1 i2 by auto
qed


lemma dayFromYear_less:
  assumes "y < y'"
  shows "dayFromYear y + 365 + (if isLeapYear y then 1 else 0) \<le> dayFromYear y'"
  using assms
proof (induction y')
  case 0
  then show ?case by simp
next
  case (Suc k)
  show ?case
  proof (cases "y = k")
    case True
    then show ?thesis by (simp add: dayFromYear_Suc)
  next
    case False
    with Suc.prems have "y < k" by simp
    from Suc.IH [OF this] show ?thesis by (simp add: dayFromYear_Suc)
  qed
qed

lemma month_cases:
  assumes "1 \<le> m" "m \<le> (12::nat)"
  shows "m = 1 \<or> m = 2 \<or> m = 3 \<or> m = 4 \<or> m = 5 \<or> m = 6 \<or> m = 7 \<or> m = 8
       \<or> m = 9 \<or> m = 10 \<or> m = 11 \<or> m = 12"
  using assms by arith

lemma daysBeforeMonth_Suc:
  assumes "1 \<le> m" "m < 12"
  shows "daysBeforeMonth l (Suc m) = daysBeforeMonth l m + daysInMonth l m"
proof -
  from assms have "m = 1 \<or> m = 2 \<or> m = 3 \<or> m = 4 \<or> m = 5 \<or> m = 6 \<or> m = 7 \<or> m = 8
       \<or> m = 9 \<or> m = 10 \<or> m = 11" by arith
  then show ?thesis
    by (elim disjE) (simp_all add: daysBeforeMonth_def daysInMonth_def)
qed

lemma daysBeforeMonth_less:
  assumes "1 \<le> m" "m < m'" "m' \<le> 12"
  shows "daysBeforeMonth l m + daysInMonth l m \<le> daysBeforeMonth l m'"
  using assms(2,3)
proof (induction m')
  case 0
  then show ?case by simp
next
  case (Suc k)
  show ?case
  proof (cases "m = k")
    case True
    with assms(1) Suc.prems show ?thesis by (simp add: daysBeforeMonth_Suc)
  next
    case False
    with Suc.prems have "m < k" "k \<le> 12" "1 \<le> k" "k < 12" by simp_all
    with Suc.IH have "daysBeforeMonth l m + daysInMonth l m \<le> daysBeforeMonth l k" by simp
    also have "\<dots> \<le> daysBeforeMonth l (Suc k)"
      using \<open>1 \<le> k\<close> \<open>k < 12\<close> by (simp add: daysBeforeMonth_Suc)
    finally show ?thesis .
  qed
qed

lemma dayInYear_bound:
  assumes "validDate y m d"
  shows "daysBeforeMonth (isLeapYear y) m + d \<le> 365 + (if isLeapYear y then 1 else 0)"
proof -
  from assms have m: "1 \<le> m" "m \<le> 12" and d: "d \<le> daysInMonth (isLeapYear y) m"
    by (simp_all add: validDate_def)
  from month_cases [OF m] d show ?thesis
    by (elim disjE) (simp_all add: daysBeforeMonth_def daysInMonth_def split: if_splits)
qed

lemma makeDay_year_less:
  assumes "validDate y m d" "validDate y' m' d'" "y < y'"
  shows "makeDay y m d < makeDay y' m' d'"
proof -
  have "makeDay y m d < dayFromYear y + 365 + (if isLeapYear y then 1 else 0)"
    using dayInYear_bound [OF assms(1)] by (simp add: makeDay_def split: if_splits)
  also have "\<dots> \<le> dayFromYear y'" by (rule dayFromYear_less [OF assms(3)])
  also have "\<dots> \<le> makeDay y' m' d'"
    using assms(2) by (simp add: makeDay_def validDate_def)
  finally show ?thesis .
qed

lemma makeDay_month_less:
  assumes "validDate y m d" "validDate y m' d'" "m < m'"
  shows "makeDay y m d < makeDay y m' d'"
proof -
  from assms have "daysBeforeMonth (isLeapYear y) m + daysInMonth (isLeapYear y) m
      \<le> daysBeforeMonth (isLeapYear y) m'"
    by (intro daysBeforeMonth_less) (simp_all add: validDate_def)
  with assms(1,2) show ?thesis by (simp add: makeDay_def validDate_def)
qed

lemma makeDay_inj:
  assumes "validDate y m d" "validDate y' m' d'" "makeDay y m d = makeDay y' m' d'"
  shows "y = y' \<and> m = m' \<and> d = d'"
proof -
  have y: "y = y'"
    using makeDay_year_less [OF assms(1,2)] makeDay_year_less [OF assms(2,1)] assms(3)
    by (cases y y' rule: linorder_cases) simp_all
  have m: "m = m'"
    using makeDay_month_less [of y m d m' d'] makeDay_month_less [of y m' d' m d] assms y
    by (cases m m' rule: linorder_cases) simp_all
  from assms(3) y m have "d = d'" by (simp add: makeDay_def)
  with y m show ?thesis by simp
qed

lemma getTime_inj:
  assumes "getTime s = Some t" and "getTime s' = Some t"
  shows "s = s'"
proof -
  from assms(1) obtain y m d where f: "dateFields s = Some (y, m, d)" and v: "validDate y m d"
    and t: "t = makeDay y m d * msPerDay"
    by (auto simp: getTime_def split: option.splits if_splits)
  from assms(2) obtain y' m' d' where f': "dateFields s' = Some (y', m', d')"
    and v': "validDate y' m' d'" and t': "t = makeDay y' m' d' * msPerDay"
    by (auto simp: getTime_def split: option.splits if_splits)
  from t t' have "makeDay y m d = makeDay y' m' d'" by (simp add: msPerDay_def)
  from makeDay_inj [OF v v' this] f f' show ?thesis by (auto intro: dateFields_inj)
qed

subsection \<open>Sorting by date\<close>

lemma insertBy_valid:
  assumes "getTime (date x) \<noteq> None" "\<forall>r \<in> set ys. getTime (date r) \<noteq> None"
  shows "insertBy compareByDate x ys = insort_key timeKey x ys"
  using assms
  by (induction ys) (auto simp: compareByDate_def timeKey_def)

lemma sortBy_valid:
  assumes "\<forall>r \<in> set rs. getTime (date r) \<noteq> None"
  shows "sortBy compareByDate rs = sort_key timeKey rs"
  using assms
proof (induction rs)
  case Nil
  show ?case by (simp add: sortBy_def)
next
  case (Cons r rs)
  then have "sortBy compareByDate rs = sort_key timeKey rs" by simp
  moreover have "insertBy compareByDate r (sort_key timeKey rs) = insort_key timeKey r (sort_key timeKey rs)"
    using Cons.prems by (intro insertBy_valid) simp_all
  ultimately show ?case by (simp add: sortBy_def)
qed

lemma timeKey_inj:
  assumes "distinct (map date rs)" "\<forall>r \<in> set rs. getTime (date r) \<noteq> None"
  shows "inj_on timeKey (set rs)"
proof (rule inj_onI)
  fix a b assume a: "a \<in> set rs" and b: "b \<in> set rs" and eq: "timeKey a = timeKey b"
  from a b assms(2) have "getTime (date a) \<noteq> None" "getTime (date b) \<noteq> None"
    by blast+
  then obtain t u where "getTime (date a) = Some t" "getTime (date b) = Some u"
    by auto
  with eq have "date a = date b" by (auto simp: timeKey_def intro: getTime_inj)
  moreover from assms(1) have "inj_on date (set rs)" by (simp add: distinct_map)
  ultimately show "a = b" using a b by (auto dest: inj_onD)
qed

text \<open>
  Claim C5. For two record sequences that are permutations of each other, with pairwise
  distinct dates that are calendar dates of the form \<open>YYYY-MM-DD\<close>, \<open>calculatePRs\<close>
  returns the same \<open>prData\<close> and the same maxima.
\<close>

theorem calculatePRs_order_independent:
  assumes "mset rs = mset rs'"
    and "distinct (map date rs)"
    and "\<forall>r \<in> set rs. getTime (date r) \<noteq> None"
  shows "calculatePRs rs = calculatePRs rs'"
proof -
  from assms(1) have s: "set rs' = set rs" by (metis mset_eq_setD)
  have "sort_key timeKey rs = sort_key timeKey rs'"
    by (rule sort_key_inj_key_eq) (use assms in \<open>simp_all add: timeKey_inj\<close>)
  moreover have "sortBy compareByDate rs = sort_key timeKey rs"
    by (rule sortBy_valid [OF assms(3)])
  moreover have "sortBy compareByDate rs' = sort_key timeKey rs'"
    by (rule sortBy_valid) (use assms(3) s in simp)
  ultimately show ?thesis by (simp add: calculatePRs_def)
qed

theorem calculatePRs_order_independent_witness:
  "mset benchTie = mset [singleSetRecord ''2024-01-01'' ''Bench'' 100 5,
                          singleSetRecord ''2024-01-08'' ''Bench'' 100 8]
   \<and> distinct (map date benchTie)
   \<and> map (\<lambda>r. getTime (date r)) benchTie = [Some 1704672000000, Some 1704067200000]
   \<and> calculatePRs benchTie = calculatePRs [singleSetRecord ''2024-01-01'' ''Bench'' 100 5,
                          singleSetRecord ''2024-01-08'' ''Bench'' 100 8]"
proof -
  have 1: "mset benchTie = mset [singleSetRecord ''2024-01-01'' ''Bench'' 100 5,
                          singleSetRecord ''2024-01-08'' ''Bench'' 100 8]"
    by (simp add: benchTie_def)
  have 2: "distinct (map date benchTie)"
    by (simp add: benchTie_def singleSetRecord_def)
  have 3: "map (\<lambda>r. getTime (date r)) benchTie = [Some 1704672000000, Some 1704067200000]"
    by (simp add: benchTie_def singleSetRecord_def date_eval)
  have 4: "\<forall>r \<in> set benchTie. getTime (date r) \<noteq> None"
  proof
    fix r assume "r \<in> set benchTie"
    then have "getTime (date r) \<in> set (map (\<lambda>r. getTime (date r)) benchTie)" by simp
    then show "getTime (date r) \<noteq> None" unfolding 3 by auto
  qed
  from calculatePRs_order_independent [OF 1 2 4] 1 2 3 show ?thesis by blast
qed

subsection \<open>Sparse input\<close>







subsection \<open>The argument of \<open>calculatePRs\<close> is not changed\<close>

lemma those_eq_Some: "those xs = Some ys \<longleftrightarrow> xs = map Some ys"
proof (induction xs arbitrary: ys)
  case Nil
  show ?case by auto
next
  case (Cons x xs)
  show ?case
  proof (cases x)
    case None
    then show ?thesis by auto
  next
    case (Some v)
    with Cons show ?thesis by (cases ys) (auto split: option.splits)
  qed
qed

lemma map_snd_insertBy:
  "map snd (insertBy (\<lambda>p q. cmp (snd p) (snd q)) x ys) = insertBy cmp (snd x) (map snd ys)"
  by (induction ys) auto

lemma map_snd_sortBy:
  "map snd (sortBy (\<lambda>p q. cmp (snd p) (snd q)) xs) = sortBy cmp (map snd xs)"
  by (induction xs) (simp_all add: sortBy_def map_snd_insertBy)

lemma resolve_sorted:
  assumes "map f refs = map Some recs"
  shows "map f (map fst (sortBy (\<lambda>p q. cmp (snd p) (snd q)) (zip refs recs)))
           = map Some (sortBy cmp recs)"
proof -
  let ?s = "sortBy (\<lambda>p q. cmp (snd p) (snd q)) (zip refs recs)"
  from assms have len: "length refs = length recs" by (metis length_map)
  have "f (fst p) = Some (snd p)" if "p \<in> set (zip refs recs)" for p
  proof -
    from that obtain i where i: "i < length refs" "i < length recs" "p = (refs ! i, recs ! i)"
      by (auto simp: set_zip)
    from assms i have "map f refs ! i = map Some recs ! i" by simp
    with i show ?thesis by simp
  qed
  then have "map f (map fst ?s) = map Some (map snd ?s)" by simp
  also have "map snd ?s = sortBy cmp (map snd (zip refs recs))" by (rule map_snd_sortBy)
  also have "map snd (zip refs recs) = recs" using len by simp
  finally show ?thesis .
qed

text \<open>
  Claim C7. \<open>calculatePRs\<close> sorts a copy: after the call on an array of the store the
  array holds the same references in the same order, every other array allocated before
  the call is as it was, and every record object is unchanged; the result is that of
  \<open>calculatePRs\<close> on the records of the array.
\<close>

theorem calculatePRsOn_frame:
  assumes "arrayAt h a = Some refs" and "a < nextRef h"
    and "those (map (recordAt h) refs) = Some recs"
  shows "\<exists>h'. calculatePRsOn a h = Some (calculatePRs recs, h')
            \<and> arrayAt h' a = Some refs
            \<and> recordAt h' = recordAt h
            \<and> (\<forall>b. b < nextRef h \<longrightarrow> arrayAt h' b = arrayAt h b)"
proof -
  define c where "c = nextRef h"
  define h1 where "h1 = h\<lparr>arrayAt := (arrayAt h)(c \<mapsto> refs), nextRef := Suc c\<rparr>"
  define sorted where
    "sorted = map fst (sortBy (\<lambda>p q. compareByDate (snd p) (snd q)) (zip refs recs))"
  define h2 where "h2 = h1\<lparr>arrayAt := (arrayAt h1)(c \<mapsto> sorted)\<rparr>"
  from assms(3) have r: "map (recordAt h) refs = map Some recs" by (simp add: those_eq_Some)
  have 1: "spreadCopy a h = Some (c, h1)"
    using assms(1) by (simp add: spreadCopy_def c_def h1_def)
  have 2: "sortInPlace c h1 = Some h2"
    using assms(3) by (simp add: sortInPlace_def h1_def h2_def sorted_def)
  have "those (map (recordAt h) sorted) = Some (sortBy compareByDate recs)"
    unfolding sorted_def using resolve_sorted [OF r] by (simp add: those_eq_Some)
  then have 3: "readRecords c h2 = Some (sortBy compareByDate recs)"
    by (simp add: readRecords_def h2_def h1_def)
  have "calculatePRsOn a h = Some (calculatePRs recs, h2)"
    by (simp add: calculatePRsOn_def 1 2 3 calculatePRs_def)
  moreover have "arrayAt h2 a = Some refs"
    using assms(1,2) by (simp add: h2_def h1_def c_def)
  moreover have "recordAt h2 = recordAt h" by (simp add: h2_def h1_def)
  moreover have "\<forall>b. b < nextRef h \<longrightarrow> arrayAt h2 b = arrayAt h b"
    by (simp add: h2_def h1_def c_def)
  ultimately show ?thesis by blast
qed

theorem calculatePRsOn_frame_witness:
  "arrayAt benchStore 0 = Some [1, 2] \<and> 0 < nextRef benchStore
   \<and> those (map (recordAt benchStore) [1, 2]) = Some benchTie
   \<and> (\<exists>h'. calculatePRsOn 0 benchStore = Some (calculatePRs benchTie, h')
            \<and> arrayAt h' 0 = Some [1, 2]
            \<and> recordAt h' = recordAt benchStore)"
proof -
  have 1: "arrayAt benchStore 0 = Some [1, 2]" by (simp add: benchStore_def)
  have 2: "0 < nextRef benchStore" by (simp add: benchStore_def)
  have 3: "those (map (recordAt benchStore) [1, 2]) = Some benchTie"
    by (simp add: benchStore_def benchTie_def)
  from calculatePRsOn_frame [OF 1 2 3] 1 2 3 show ?thesis by blast
qed

text \<open>In \<open>benchStore\<close> the sorted order goes into the new array at reference 3.\<close>

lemma benchStore_sorted_copy:
  "map_option (\<lambda>p. arrayAt (snd p) 3) (calculatePRsOn 0 benchStore) = Some (Some [2, 1])
 \<and> map_option (\<lambda>p. arrayAt (snd p) 0) (calculatePRsOn 0 benchStore) = Some (Some [1, 2])"
  by (simp add: calculatePRsOn_def spreadCopy_def sortInPlace_def readRecords_def benchStore_def
      sortBy_def compareByDate_def singleSetRecord_def date_eval)

end
